theory Spec2Isabelle
  imports Complex_Main
begin

section \<open>Terrain symbols\<close>

text \<open>
  A tile is a JavaScript string, that is a sequence of UTF-16 code units. The literals
  below are the ones of \<^verbatim>\<open>script.js\<close> as the file stores them (every code point of
  them lies in the basic plane, so one code point is one code unit). The empty string is
  the empty cell.
\<close>

type_synonym tile = "nat list"

definition ROAD :: tile where
  "ROAD = [0xF8FF, 0xFC, 0xF5, 0xA3, 0xD4, 0x220F, 0xE8]"

definition PARKING :: tile where
  "PARKING = [0xF8FF, 0xFC, 0xD6, 0xF8, 0xD4, 0x220F, 0xE8]"

definition EVERGREEN :: tile where
  "EVERGREEN = [0xF8FF, 0xFC, 0xE5, 0x2264]"

definition TREE :: tile where
  "TREE = [0xF8FF, 0xFC, 0xE5, 0x2265]"

definition CONSTRUCTION :: tile where
  "CONSTRUCTION = [0xF8FF, 0xFC, 0xE8, 0xF3, 0xD4, 0x220F, 0xE8]"

definition FACTORY :: tile where
  "FACTORY = [0xF8FF, 0xFC, 0xE8, 0x2260]"

definition CAR :: tile where
  "CAR = [0xF8FF, 0xFC, 0xF6, 0xF3]"

definition UFO :: tile where
  "UFO = [0xF8FF, 0xFC, 0xF5, 0x220F]"

definition BIKE :: tile where
  "BIKE = [0xF8FF, 0xFC, 0xF6, 0x2264]"

text \<open>
  The regular expressions of the source are alternations of literals without any
  metacharacter, so \<^verbatim>\<open>/a|b/.test(s)\<close> holds when \<open>a\<close> or \<open>b\<close> occurs in \<open>s\<close> as a
  contiguous run of code units.
\<close>

fun starts_with :: "tile \<Rightarrow> tile \<Rightarrow> bool" where
  "starts_with [] s = True"
| "starts_with (p # ps) [] = False"
| "starts_with (p # ps) (x # xs) = (p = x \<and> starts_with ps xs)"

fun occurs_in :: "tile \<Rightarrow> tile \<Rightarrow> bool" where
  "occurs_in p [] = (p = [])"
| "occurs_in p (x # xs) = (starts_with p (x # xs) \<or> occurs_in p xs)"

definition regex_test :: "tile list \<Rightarrow> tile \<Rightarrow> bool" where
  "regex_test alternatives s = list_ex (\<lambda>p. occurs_in p s) alternatives"

section \<open>The grid\<close>

text \<open>
  \<^verbatim>\<open>class Grid\<close>: the dimensions and the row-major cell array. \<^verbatim>\<open>get\<close> reads
  \<^verbatim>\<open>cells[r*cols + c]\<close>, which is \<^verbatim>\<open>undefined\<close> (here \<open>None\<close>) outside the array.
\<close>

record grid =
  rows :: int
  cols :: int
  cells :: "tile list"

definition index :: "grid \<Rightarrow> int \<Rightarrow> int \<Rightarrow> int" where
  "index gr r c = r * cols gr + c"

definition get :: "grid \<Rightarrow> int \<Rightarrow> int \<Rightarrow> tile option" where
  "get gr r c =
     (let i = index gr r c
      in if 0 \<le> i \<and> i < int (length (cells gr)) then Some (cells gr ! nat i) else None)"

section \<open>Numbers and typed arrays\<close>

text \<open>
  The values a \<^verbatim>\<open>Float64Array\<close> of the search holds: a finite number, \<^verbatim>\<open>Infinity\<close>, or
  \<^verbatim>\<open>NaN\<close>. Finite numbers are exact reals: the rounding of IEEE arithmetic is not
  modelled. Only \<open><\<close> and \<open>+\<close> with a finite positive right operand are applied
  to them.
\<close>

datatype num = Num real | Infinity | NaN

fun num_less :: "num \<Rightarrow> num \<Rightarrow> bool" where
  "num_less (Num a) (Num b) = (a < b)"
| "num_less (Num a) Infinity = True"
| "num_less (Num a) NaN = False"
| "num_less Infinity y = False"
| "num_less NaN y = False"

fun num_add :: "num \<Rightarrow> real \<Rightarrow> num" where
  "num_add (Num a) x = Num (a + x)"
| "num_add Infinity x = Infinity"
| "num_add NaN x = NaN"

text \<open>
  A typed array has a fixed length: a read outside it yields \<^verbatim>\<open>undefined\<close> (\<open>None\<close>) and
  a write outside it is ignored. In \<open><\<close> and \<open>+\<close> the value \<^verbatim>\<open>undefined\<close> becomes
  \<^verbatim>\<open>NaN\<close>, which is what \<open>f64\<close> returns for it.
\<close>

definition arr_get :: "'a list \<Rightarrow> int \<Rightarrow> 'a option" where
  "arr_get a i = (if 0 \<le> i \<and> i < int (length a) then Some (a ! nat i) else None)"

definition arr_set :: "'a list \<Rightarrow> int \<Rightarrow> 'a \<Rightarrow> 'a list" where
  "arr_set a i v = (if 0 \<le> i \<and> i < int (length a) then a[nat i := v] else a)"

definition f64 :: "num list \<Rightarrow> int \<Rightarrow> num" where
  "f64 a i = (case arr_get a i of None \<Rightarrow> NaN | Some v \<Rightarrow> v)"

text \<open>
  \<^verbatim>\<open>a % b\<close> takes the sign of the dividend. (\<^verbatim>\<open>Math.floor(a / b)\<close> is \<open>a div b\<close> for
  \<open>b \<noteq> 0\<close>.)
\<close>

definition js_rem :: "int \<Rightarrow> int \<Rightarrow> int" where
  "js_rem a b = sgn a * (\<bar>a\<bar> mod \<bar>b\<bar>)"

section \<open>The main-thread engine: class AStar\<close>

text \<open>
  Coordinates, dimensions and indices are integers (numbers that are not integers are
  outside the model), far below \<open>2^31\<close>: the wrap-around of \<^verbatim>\<open>| 0\<close> and of an
  \<^verbatim>\<open>Int32Array\<close> is not modelled. A cell is the pair of the fields \<^verbatim>\<open>r\<close> and \<^verbatim>\<open>c\<close>.
\<close>

type_synonym cell = "int \<times> int"

text \<open>The key of the cache is the template string of \<^verbatim>\<open>findPath\<close>.\<close>

fun digits :: "nat \<Rightarrow> string" where
  "digits n = (if n < 10 then [''0123456789'' ! n]
               else digits (n div 10) @ [''0123456789'' ! (n mod 10)])"

definition show_int :: "int \<Rightarrow> string" where
  "show_int i = (if i < 0 then ''-'' @ digits (nat (- i)) else digits (nat i))"

definition cacheKey :: "cell \<Rightarrow> cell \<Rightarrow> grid \<Rightarrow> string" where
  "cacheKey start goal gr =
     show_int (fst start) @ '','' @ show_int (snd start) @ ''|'' @
     show_int (fst goal) @ '','' @ show_int (snd goal) @ ''|'' @
     show_int (rows gr) @ ''x'' @ show_int (cols gr)"

text \<open>
  The objects a caller can hold: coordinate objects \<^verbatim>\<open>{r, c}\<close> and arrays of references
  to them, each at an address of the store. \<^verbatim>\<open>slice\<close> allocates a new array with the
  same references.
\<close>

type_synonym ref = nat

record store =
  cellObj :: "ref \<Rightarrow> cell"
  arrObj :: "ref \<Rightarrow> ref list"
  nextRef :: ref

definition new_cell :: "store \<Rightarrow> cell \<Rightarrow> ref \<times> store" where
  "new_cell st p =
     (nextRef st, st\<lparr>cellObj := (cellObj st)(nextRef st := p), nextRef := Suc (nextRef st)\<rparr>)"

definition new_array :: "store \<Rightarrow> ref list \<Rightarrow> ref \<times> store" where
  "new_array st refs =
     (nextRef st, st\<lparr>arrObj := (arrObj st)(nextRef st := refs), nextRef := Suc (nextRef st)\<rparr>)"

definition slice :: "store \<Rightarrow> ref \<Rightarrow> ref \<times> store" where
  "slice st a = new_array st (arrObj st a)"

fun new_cells :: "store \<Rightarrow> cell list \<Rightarrow> ref list \<times> store" where
  "new_cells st [] = ([], st)"
| "new_cells st (p # ps) =
     (let (x, st1) = new_cell st p; (xs, st2) = new_cells st1 ps in (x # xs, st2))"

definition new_path :: "store \<Rightarrow> cell list \<Rightarrow> ref \<times> store" where
  "new_path st ps = (let (xs, st1) = new_cells st ps in new_array st1 xs)"

text \<open>What a reader of the array at \<open>a\<close> sees: the coordinates of its elements.\<close>

definition path_at :: "store \<Rightarrow> ref \<Rightarrow> cell list" where
  "path_at st a = map (cellObj st) (arrObj st a)"

record astar =
  grid :: grid
  cache :: "string \<rightharpoonup> ref"
  diagonal :: bool

definition dirs8 :: "(int \<times> int) list" where
  "dirs8 = [(1, 0), (-1, 0), (0, 1), (0, -1), (1, 1), (1, -1), (-1, 1), (-1, -1)]"

definition dirs4 :: "(int \<times> int) list" where
  "dirs4 = [(1, 0), (-1, 0), (0, 1), (0, -1)]"

definition neighbors :: "astar \<Rightarrow> int \<Rightarrow> int \<Rightarrow> cell list" where
  "neighbors a r c =
     filter (\<lambda>(nr, nc). nr \<ge> 0 \<and> nc \<ge> 0 \<and> nr < rows (grid a) \<and> nc < cols (grid a))
       (map (\<lambda>(dr, dc). (r + dr, c + dc)) (if diagonal a then dirs8 else dirs4))"

definition heuristic :: "astar \<Rightarrow> cell \<Rightarrow> cell \<Rightarrow> real" where
  "heuristic a p q =
     (if diagonal a then real_of_int (max \<bar>fst p - fst q\<bar> \<bar>snd p - snd q\<bar>)
      else real_of_int (\<bar>fst p - fst q\<bar> + \<bar>snd p - snd q\<bar>))"

text \<open>
  The third argument of \<^verbatim>\<open>findPath\<close>: nothing, a predicate, or an array indexed by
  \<^verbatim>\<open>r*cols + c\<close> whose entry is tested for truthiness.
\<close>

datatype mask = NoMask | MaskFn "cell \<Rightarrow> bool" | MaskArr "nat list"

definition passablePredicate :: "astar \<Rightarrow> mask \<Rightarrow> cell \<Rightarrow> bool" where
  "passablePredicate a m =
     (case m of
        NoMask \<Rightarrow> (\<lambda>p. True)
      | MaskFn fn \<Rightarrow> fn
      | MaskArr arr \<Rightarrow>
          (\<lambda>p. case arr_get arr (fst p * cols (grid a) + snd p) of
                 None \<Rightarrow> False | Some v \<Rightarrow> v \<noteq> 0))"

definition getMoveCost :: "astar \<Rightarrow> int \<Rightarrow> int \<Rightarrow> int \<Rightarrow> int \<Rightarrow> real" where
  "getMoveCost a r1 c1 r2 c2 =
     (let base = (if r1 \<noteq> r2 \<and> c1 \<noteq> c2 then 1.414 else 1.0);
          tile = (case get (grid a) r2 c2 of None \<Rightarrow> [] | Some t \<Rightarrow> t);
          mult = 1;
          mult = (if tile = ROAD \<or> tile = PARKING then 0.7 else mult);
          mult = (if tile = EVERGREEN \<or> tile = TREE then 1.15 else mult);
          mult = (if tile = CONSTRUCTION \<or> tile = FACTORY then 1.3 else mult);
          mult = (if regex_test [CAR, UFO] tile then 1.2 else mult)
      in base * mult)"

text \<open>
  The state of one search: the arrays \<^verbatim>\<open>g\<close>, \<^verbatim>\<open>f\<close> and \<^verbatim>\<open>cameFrom\<close>, and the set
  \<^verbatim>\<open>open\<close>, whose iteration order is the order of insertion.
\<close>

record search =
  gCost :: "num list"
  fCost :: "num list"
  openSet :: "int list"
  cameFrom :: "int list"

definition set_add :: "int \<Rightarrow> int list \<Rightarrow> int list" where
  "set_add k xs = (if k \<in> set xs then xs else xs @ [k])"

definition idx :: "astar \<Rightarrow> cell \<Rightarrow> int" where
  "idx a p = fst p * cols (grid a) + snd p"

text \<open>The scan for the lowest \<^verbatim>\<open>f\<close> in \<^verbatim>\<open>open\<close>; \<open>-1\<close> when no entry is below \<^verbatim>\<open>Infinity\<close>.\<close>

definition lowest :: "num list \<Rightarrow> int list \<Rightarrow> int" where
  "lowest fc opn =
     fst (fold (\<lambda>k (current, mn). if num_less (f64 fc k) mn then (k, f64 fc k) else (current, mn))
            opn (-1, Infinity))"

text \<open>The body of the loop over the neighbours of \<^verbatim>\<open>current\<close>, for one neighbour \<open>n\<close>.\<close>

definition relax :: "astar \<Rightarrow> (cell \<Rightarrow> bool) \<Rightarrow> cell \<Rightarrow> int \<Rightarrow> cell \<Rightarrow> search \<Rightarrow> search" where
  "relax a passable goal current n s =
     (if \<not> passable n then s
      else
        let cr = current div cols (grid a); cc = js_rem current (cols (grid a));
            ni = idx a n;
            cost = num_add (f64 (gCost s) current) (getMoveCost a cr cc (fst n) (snd n))
        in if num_less cost (f64 (gCost s) ni)
           then s\<lparr>cameFrom := arr_set (cameFrom s) ni current,
                  gCost := arr_set (gCost s) ni cost,
                  fCost := arr_set (fCost s) ni (num_add cost (heuristic a n goal)),
                  openSet := set_add ni (openSet s)\<rparr>
           else s)"

definition expand :: "astar \<Rightarrow> (cell \<Rightarrow> bool) \<Rightarrow> cell \<Rightarrow> int \<Rightarrow> search \<Rightarrow> search" where
  "expand a passable goal current s =
     fold (relax a passable goal current)
       (neighbors a (current div cols (grid a)) (js_rem current (cols (grid a)))) s"

text \<open>
  \<^verbatim>\<open>while(open.size)\<close>: the loop ends when \<^verbatim>\<open>open\<close> is empty or, by \<^verbatim>\<open>break\<close>, when
  the entry picked is the goal. It need not end: \<open>None\<close> is the run that never leaves it.
\<close>

partial_function (option) search_loop ::
    "astar \<Rightarrow> (cell \<Rightarrow> bool) \<Rightarrow> cell \<Rightarrow> search \<Rightarrow> search option" where
  "search_loop a passable goal s =
     (if openSet s = [] then Some s
      else
        let current = lowest (fCost s) (openSet s)
        in if current = idx a goal then Some s
           else search_loop a passable goal
                  (expand a passable goal current
                     (s\<lparr>openSet := removeAll current (openSet s)\<rparr>)))"

text \<open>
  The walk back along \<^verbatim>\<open>cameFrom\<close>. When \<^verbatim>\<open>cur\<close> is \<^verbatim>\<open>undefined\<close> (a read outside the
  array) it stays so, \<^verbatim>\<open>cur !== -1\<close> holds for ever and the loop only grows the array:
  no value is returned.
\<close>

partial_function (option) reconstruct ::
    "int list \<Rightarrow> int \<Rightarrow> int option \<Rightarrow> cell list \<Rightarrow> cell list option" where
  "reconstruct came ncols cur path =
     (case cur of
        None \<Rightarrow> None
      | Some k \<Rightarrow>
          if k = -1 then Some path
          else reconstruct came ncols (arr_get came k) ((k div ncols, js_rem k ncols) # path))"

declare search_loop.simps [code]
declare reconstruct.simps [code]

definition init_search :: "astar \<Rightarrow> cell \<Rightarrow> cell \<Rightarrow> search" where
  "init_search a start goal =
     (let size = nat (rows (grid a) * cols (grid a)); startIdx = idx a start
      in \<lparr>gCost = arr_set (replicate size Infinity) startIdx (Num 0),
          fCost = arr_set (replicate size Infinity) startIdx (Num (heuristic a start goal)),
          openSet = [startIdx],
          cameFrom = replicate size (-1)\<rparr>)"

text \<open>
  The result of a call that returns: \<^verbatim>\<open>null\<close> or a reference to the path array. The
  constructor of a typed array throws \<^verbatim>\<open>RangeError\<close> for a negative length.
\<close>

datatype outcome = Return "ref option" | RangeError

definition findPath ::
    "astar \<Rightarrow> store \<Rightarrow> cell \<Rightarrow> cell \<Rightarrow> mask \<Rightarrow> (outcome \<times> astar \<times> store) option" where
  "findPath a st start goal maskOrFn =
     (let key = cacheKey start goal (grid a)
      in case cache a key of
           Some cached \<Rightarrow> (let (copy, st1) = slice st cached in Some (Return (Some copy), a, st1))
         | None \<Rightarrow>
             if rows (grid a) * cols (grid a) < 0 then Some (RangeError, a, st)
             else
               (case search_loop a (passablePredicate a maskOrFn) goal (init_search a start goal) of
                  None \<Rightarrow> None
                | Some s \<Rightarrow>
                    if arr_get (cameFrom s) (idx a goal) = Some (-1) then Some (Return None, a, st)
                    else
                      (case reconstruct (cameFrom s) (cols (grid a)) (Some (idx a goal)) [] of
                         None \<Rightarrow> None
                       | Some ps \<Rightarrow>
                           let (path, st1) = new_path st ps
                           in if length ps < 512
                              then let (copy, st2) = slice st1 path
                                   in Some (Return (Some path), a\<lparr>cache := (cache a)(key \<mapsto> copy)\<rparr>, st2)
                              else Some (Return (Some path), a, st1))))"

text \<open>
  What a caller can do to a path it was handed: assign a field of one of its coordinate
  objects, or change the array itself (assign, push, pop, splice: any new content).
\<close>

definition mutate_cell :: "store \<Rightarrow> ref \<Rightarrow> cell \<Rightarrow> store" where
  "mutate_cell st x p = st\<lparr>cellObj := (cellObj st)(x := p)\<rparr>"

definition mutate_array :: "store \<Rightarrow> ref \<Rightarrow> ref list \<Rightarrow> store" where
  "mutate_array st x refs = st\<lparr>arrObj := (arrObj st)(x := refs)\<rparr>"

section \<open>The worker engine: createAStarWorker\<close>

text \<open>
  The message \<^verbatim>\<open>{cmd:'find', start, goal, rows, cols, passable}\<close>; \<^verbatim>\<open>passable\<close> is a plain
  array of numbers, a copy of the mask.
\<close>

record job =
  job_rows :: int
  job_cols :: int
  job_start :: cell
  job_goal :: cell
  job_passable :: "nat list"

text \<open>
  The arrays \<^verbatim>\<open>g\<close>, \<^verbatim>\<open>f\<close>, \<^verbatim>\<open>came\<close> and \<^verbatim>\<open>open\<close> of the worker, and its binary heap of
  indices.
\<close>

record wsearch =
  g_arr :: "num list"
  f_arr :: "num list"
  came :: "int list"
  open_arr :: "nat list"
  heap :: "int list"

definition worker_h :: "cell \<Rightarrow> cell \<Rightarrow> real" where
  "worker_h p q = real_of_int (max \<bar>fst p - fst q\<bar> \<bar>snd p - snd q\<bar>)"

text \<open>The estimate written into \<^verbatim>\<open>f[ni]\<close> inside the loop (line 325).\<close>

definition worker_estimate :: "cell \<Rightarrow> cell \<Rightarrow> real" where
  "worker_estimate n goal = real_of_int (\<bar>fst n - fst goal\<bar> + \<bar>snd n - snd goal\<bar>)"

text \<open>The step cost of the worker (line 320), from the direction alone.\<close>

definition worker_base :: "int \<times> int \<Rightarrow> real" where
  "worker_base d = (if fst d \<noteq> 0 \<and> snd d \<noteq> 0 then 1.414 else 1.0)"

text \<open>\<^verbatim>\<open>(a / b) | 0\<close> truncates towards zero (and is 0 when \<open>b = 0\<close>).\<close>

definition js_trunc_div :: "int \<Rightarrow> int \<Rightarrow> int" where
  "js_trunc_div a b = sgn a * sgn b * (\<bar>a\<bar> div \<bar>b\<bar>)"

text \<open>
  The binary heap: \<^verbatim>\<open>siftUp\<close>, \<^verbatim>\<open>siftDown\<close> (\<open>smaller_child\<close> is the index
  \<^verbatim>\<open>smallest\<close> that one round of it computes), \<^verbatim>\<open>heapPush\<close> and \<^verbatim>\<open>heapPop\<close>, which
  returns the entry popped with the heap that is left. The heap is ordered by the array
  \<^verbatim>\<open>f\<close> as it is at the time of the call.
\<close>

function siftUp :: "num list \<Rightarrow> int list \<Rightarrow> nat \<Rightarrow> int list" where
  "siftUp fc hp i =
     (if i > 0
      then if num_less (f64 fc (hp ! i)) (f64 fc (hp ! ((i - 1) div 2)))
           then siftUp fc (hp[i := hp ! ((i - 1) div 2), (i - 1) div 2 := hp ! i]) ((i - 1) div 2)
           else hp
      else hp)"
  by pat_completeness auto
termination
  by (relation "measure (\<lambda>(fc, hp, i). i)") auto

definition smaller_child :: "num list \<Rightarrow> int list \<Rightarrow> nat \<Rightarrow> nat" where
  "smaller_child fc hp i =
     (let n = length hp; l = 2 * i + 1; r = 2 * i + 2;
          smallest = i;
          smallest = (if l < n \<and> num_less (f64 fc (hp ! l)) (f64 fc (hp ! smallest)) then l else smallest);
          smallest = (if r < n \<and> num_less (f64 fc (hp ! r)) (f64 fc (hp ! smallest)) then r else smallest)
      in smallest)"

function siftDown :: "num list \<Rightarrow> int list \<Rightarrow> nat \<Rightarrow> int list" where
  "siftDown fc hp i =
     (if smaller_child fc hp i \<noteq> i
      then siftDown fc (hp[i := hp ! smaller_child fc hp i, smaller_child fc hp i := hp ! i])
             (smaller_child fc hp i)
      else hp)"
  by pat_completeness auto
termination
  by (relation "measure (\<lambda>(fc, hp, i). length hp - i)")
    (auto simp: smaller_child_def Let_def split: if_splits)

declare siftUp.simps [simp del]
declare siftDown.simps [simp del]

definition heapPush :: "num list \<Rightarrow> int list \<Rightarrow> int \<Rightarrow> int list" where
  "heapPush fc hp k = siftUp fc (hp @ [k]) (length hp)"

definition heapPop :: "num list \<Rightarrow> int list \<Rightarrow> int \<times> int list" where
  "heapPop fc hp =
     (if hp = [] then (-1, hp)
      else let top = hd hp; lst = last hp; hp1 = butlast hp
           in if hp1 \<noteq> [] then (top, siftDown fc (hp1[0 := lst]) 0) else (top, hp1))"

text \<open>The body of the loop over \<^verbatim>\<open>dirs\<close>, for one direction \<open>d\<close>.\<close>

definition worker_relax :: "job \<Rightarrow> int \<Rightarrow> int \<times> int \<Rightarrow> wsearch \<Rightarrow> wsearch" where
  "worker_relax msg current d s =
     (let cr = js_trunc_div current (job_cols msg); cc = js_rem current (job_cols msg);
          nr = cr + fst d; nc = cc + snd d
      in if nr < 0 \<or> nc < 0 \<or> nr \<ge> job_rows msg \<or> nc \<ge> job_cols msg then s
         else
           let ni = nr * job_cols msg + nc
           in if arr_get (job_passable msg) ni = None \<or> arr_get (job_passable msg) ni = Some 0 then s
              else
                let tentative = num_add (f64 (g_arr s) current) (worker_base d)
                in if num_less tentative (f64 (g_arr s) ni)
                   then
                     let s1 = s\<lparr>came := arr_set (came s) ni current,
                                g_arr := arr_set (g_arr s) ni tentative,
                                f_arr := arr_set (f_arr s) ni
                                        (num_add tentative (worker_estimate (nr, nc) (job_goal msg)))\<rparr>
                     in if arr_get (open_arr s1) ni = None \<or> arr_get (open_arr s1) ni = Some 0
                        then s1\<lparr>heap := heapPush (f_arr s1) (heap s1) ni,
                                open_arr := arr_set (open_arr s1) ni 1\<rparr>
                        else s1
                   else s)"

text \<open>
  \<^verbatim>\<open>while(heap.length)\<close>. The flag of the result tells how the loop was left: \<open>True\<close>
  by \<^verbatim>\<open>break\<close>, the entry popped being the goal, \<open>False\<close> with the heap empty.
\<close>

partial_function (option) worker_loop :: "job \<Rightarrow> wsearch \<Rightarrow> (bool \<times> wsearch) option" where
  "worker_loop msg s =
     (if heap s = [] then Some (False, s)
      else
        let popped = heapPop (f_arr s) (heap s); current = fst popped; s1 = s\<lparr>heap := snd popped\<rparr>
        in if current = fst (job_goal msg) * job_cols msg + snd (job_goal msg) then Some (True, s1)
           else worker_loop msg (fold (worker_relax msg current) dirs8 s1))"

partial_function (option) worker_reconstruct ::
    "int list \<Rightarrow> int \<Rightarrow> int option \<Rightarrow> cell list \<Rightarrow> cell list option" where
  "worker_reconstruct cm ncols cur path =
     (case cur of
        None \<Rightarrow> None
      | Some k \<Rightarrow>
          if k = -1 then Some path
          else worker_reconstruct cm ncols (arr_get cm k)
                 ((js_trunc_div k ncols, js_rem k ncols) # path))"

declare worker_loop.simps [code]
declare worker_reconstruct.simps [code]

definition init_worker :: "job \<Rightarrow> wsearch" where
  "init_worker msg =
     (let size = nat (job_rows msg * job_cols msg);
          startIdx = fst (job_start msg) * job_cols msg + snd (job_start msg);
          fc = arr_set (replicate size Infinity) startIdx (Num (worker_h (job_start msg) (job_goal msg)))
      in \<lparr>g_arr = arr_set (replicate size Infinity) startIdx (Num 0),
          f_arr = fc,
          came = replicate size (-1),
          open_arr = arr_set (replicate size 0) startIdx 1,
          heap = heapPush fc [] startIdx\<rparr>)"

text \<open>
  The handler of a \<^verbatim>\<open>find\<close> message. \<open>Some None\<close> is the message with \<^verbatim>\<open>path: null\<close>,
  \<open>Some (Some ps)\<close> the message with a path (a copy: no object is shared with the
  main thread), and \<open>None\<close> is a handler that posts no message: it throws (a negative
  array length) or never leaves a loop.
\<close>

definition worker_find :: "job \<Rightarrow> cell list option option" where
  "worker_find msg =
     (if job_rows msg * job_cols msg < 0 then None
      else
        let goalIdx = fst (job_goal msg) * job_cols msg + snd (job_goal msg)
        in case worker_loop msg (init_worker msg) of
             None \<Rightarrow> None
           | Some (reached, s) \<Rightarrow>
               if arr_get (came s) goalIdx = Some (-1) then Some None
               else map_option Some (worker_reconstruct (came s) (job_cols msg) (Some goalIdx) []))"

section \<open>The caller: Game.findPath\<close>

text \<open>
  The mask \<^verbatim>\<open>Game.findPath\<close> builds: a cell is passable when it is empty, the road
  tile, or holds a car, a bicycle or a saucer. The same mask goes to either engine.
\<close>

definition mask_entry :: "grid \<Rightarrow> int \<Rightarrow> int \<Rightarrow> nat" where
  "mask_entry gr r c =
     (case get gr r c of
        None \<Rightarrow> 1
      | Some tile \<Rightarrow> if tile = [] \<or> tile = ROAD \<or> regex_test [CAR, BIKE, UFO] tile then 1 else 0)"

definition buildMask :: "grid \<Rightarrow> nat list" where
  "buildMask gr =
     fold (\<lambda>r m. fold (\<lambda>c m. arr_set m (int r * cols gr + int c) (mask_entry gr (int r) (int c)))
                    [0..<nat (cols gr)] m)
       [0..<nat (rows gr)] (replicate (nat (rows gr * cols gr)) 0)"

definition game_sync :: "astar \<Rightarrow> store \<Rightarrow> cell \<Rightarrow> cell \<Rightarrow> (outcome \<times> astar \<times> store) option" where
  "game_sync a st start goal = findPath a st start goal (MaskArr (buildMask (grid a)))"

definition game_worker :: "grid \<Rightarrow> cell \<Rightarrow> cell \<Rightarrow> cell list option option" where
  "game_worker gr start goal =
     worker_find \<lparr>job_rows = rows gr, job_cols = cols gr, job_start = start, job_goal = goal,
                  job_passable = buildMask gr\<rparr>"

section \<open>Vocabulary of the properties\<close>

text \<open>A cell of the grid: \<open>0 \<le> r < rows\<close> and \<open>0 \<le> c < cols\<close>.\<close>

definition in_bounds :: "astar \<Rightarrow> cell \<Rightarrow> bool" where
  "in_bounds a p = (0 \<le> fst p \<and> fst p < rows (grid a) \<and> 0 \<le> snd p \<and> snd p < cols (grid a))"

text \<open>The cell with the row-major index \<open>k\<close>.\<close>

definition decode :: "astar \<Rightarrow> int \<Rightarrow> cell" where
  "decode a k = (k div cols (grid a), k mod cols (grid a))"

text \<open>Two distinct cells at most one row and one column apart.\<close>

definition adjacent :: "cell \<Rightarrow> cell \<Rightarrow> bool" where
  "adjacent p q = (\<bar>fst p - fst q\<bar> \<le> 1 \<and> \<bar>snd p - snd q\<bar> \<le> 1 \<and> p \<noteq> q)"

text \<open>
  What the caller receives: \<open>None\<close> when the call does not return a value, \<open>Some None\<close>
  for \<^verbatim>\<open>null\<close>, and the coordinates read from the returned array otherwise. A second
  call is made on the engine and the store the first one left.
\<close>

definition returned_path :: "(outcome \<times> astar \<times> store) option \<Rightarrow> cell list option option" where
  "returned_path r =
     (case r of
        None \<Rightarrow> None
      | Some (RangeError, a, st) \<Rightarrow> None
      | Some (Return None, a, st) \<Rightarrow> Some None
      | Some (Return (Some p), a, st) \<Rightarrow> Some (Some (path_at st p)))"

definition then_findPath ::
    "(outcome \<times> astar \<times> store) option \<Rightarrow> cell \<Rightarrow> cell \<Rightarrow> mask \<Rightarrow> (outcome \<times> astar \<times> store) option" where
  "then_findPath r start goal m =
     (case r of None \<Rightarrow> None | Some (out, a, st) \<Rightarrow> findPath a st start goal m)"

subsection \<open>A caller that keeps and changes the paths it was handed\<close>

text \<open>
  After a first call, the caller repeats the call (with any mask) and, in between, changes
  arrays it has been returned: \<open>MutateArray i refs\<close> gives the \<open>i\<close>-th array it holds
  the new content \<open>refs\<close>. \<open>client\<close> collects what the calls return, \<open>calls\<close> counts
  them. \<open>then_set_cell\<close> is the other kind of change: an assignment to the fields of
  element \<open>i\<close> of the returned path.
\<close>

datatype action = MutateArray nat "ref list" | Call mask

fun client :: "cell \<Rightarrow> cell \<Rightarrow> action list \<Rightarrow> astar \<Rightarrow> store \<Rightarrow> ref list
    \<Rightarrow> cell list option list option" where
  "client start goal [] a st held = Some []"
| "client start goal (MutateArray i refs # acts) a st held =
     client start goal acts a (if i < length held then mutate_array st (held ! i) refs else st) held"
| "client start goal (Call m # acts) a st held =
     (case findPath a st start goal m of
        None \<Rightarrow> None
      | Some (RangeError, a1, st1) \<Rightarrow> None
      | Some (Return None, a1, st1) \<Rightarrow> map_option ((#) None) (client start goal acts a1 st1 held)
      | Some (Return (Some p), a1, st1) \<Rightarrow>
          map_option ((#) (Some (path_at st1 p))) (client start goal acts a1 st1 (held @ [p])))"

fun calls :: "action list \<Rightarrow> nat" where
  "calls [] = 0"
| "calls (MutateArray i refs # acts) = calls acts"
| "calls (Call m # acts) = Suc (calls acts)"

definition then_set_cell ::
    "nat \<Rightarrow> cell \<Rightarrow> (outcome \<times> astar \<times> store) option \<Rightarrow> (outcome \<times> astar \<times> store) option" where
  "then_set_cell i p r =
     (case r of
        Some (Return (Some path), a, st) \<Rightarrow>
          Some (Return (Some path), a, mutate_cell st (arrObj st path ! i) p)
      | _ \<Rightarrow> r)"

subsection \<open>Invariants of the search\<close>

text \<open>
  Once \<^verbatim>\<open>cameFrom[goalIdx]\<close> is set, the goal sits in \<^verbatim>\<open>open\<close> until it is picked.
\<close>

definition goal_kept :: "astar \<Rightarrow> cell \<Rightarrow> search \<Rightarrow> bool" where
  "goal_kept a goal t =
     (length (cameFrom t) = nat (rows (grid a) * cols (grid a)) \<and>
      (cameFrom t ! nat (idx a goal) \<noteq> -1 \<longrightarrow> idx a goal \<in> set (openSet t)))"

text \<open>
  The same for the worker, whose array \<^verbatim>\<open>open\<close> marks the indices that were pushed:
  once \<^verbatim>\<open>came[goalIdx]\<close> is set the goal is marked, and a marked goal is in the heap.
\<close>

definition goalIdx :: "job \<Rightarrow> int" where
  "goalIdx msg = fst (job_goal msg) * job_cols msg + snd (job_goal msg)"

definition worker_goal_kept :: "job \<Rightarrow> wsearch \<Rightarrow> bool" where
  "worker_goal_kept msg t =
     (length (came t) = nat (job_rows msg * job_cols msg) \<and>
      length (open_arr t) = nat (job_rows msg * job_cols msg) \<and>
      (came t ! nat (goalIdx msg) \<noteq> -1 \<longrightarrow> open_arr t ! nat (goalIdx msg) \<noteq> 0) \<and>
      (open_arr t ! nat (goalIdx msg) \<noteq> 0 \<longrightarrow> goalIdx msg \<in> set (heap t)))"

text \<open>
  The invariant of the main-thread loop, for the start index \<open>S\<close>: \<^verbatim>\<open>g\<close> holds no
  \<^verbatim>\<open>NaN\<close> and no negative number and is 0 at the start; \<^verbatim>\<open>cameFrom\<close> is \<open>-1\<close> at
  the start, and every other entry that is set links a passable cell to a neighbour that
  is the start or has an entry itself; the members of \<^verbatim>\<open>open\<close> are such cells too.
\<close>

definition nonneg :: "num \<Rightarrow> bool" where
  "nonneg v = (case v of Num x \<Rightarrow> 0 \<le> x | Infinity \<Rightarrow> True | NaN \<Rightarrow> False)"

definition visited :: "int \<Rightarrow> int list \<Rightarrow> int \<Rightarrow> bool" where
  "visited S cf k = (k = S \<or> cf ! nat k \<noteq> -1)"

definition link :: "astar \<Rightarrow> (cell \<Rightarrow> bool) \<Rightarrow> int \<Rightarrow> int list \<Rightarrow> int \<Rightarrow> bool" where
  "link a P S cf i =
     (0 \<le> cf ! nat i \<and> cf ! nat i < rows (grid a) * cols (grid a) \<and>
      decode a i \<in> set (neighbors a (fst (decode a (cf ! nat i))) (snd (decode a (cf ! nat i)))) \<and>
      P (decode a i) \<and> visited S cf (cf ! nat i))"

definition search_inv :: "astar \<Rightarrow> (cell \<Rightarrow> bool) \<Rightarrow> int \<Rightarrow> search \<Rightarrow> bool" where
  "search_inv a P S t =
     (length (gCost t) = nat (rows (grid a) * cols (grid a)) \<and>
      length (cameFrom t) = nat (rows (grid a) * cols (grid a)) \<and>
      gCost t ! nat S = Num 0 \<and> (\<forall>v \<in> set (gCost t). nonneg v) \<and> cameFrom t ! nat S = -1 \<and>
      (\<forall>i. 0 \<le> i \<and> i < rows (grid a) * cols (grid a) \<and> cameFrom t ! nat i \<noteq> -1
            \<longrightarrow> link a P S (cameFrom t) i) \<and>
      (\<forall>k \<in> set (openSet t). 0 \<le> k \<and> k < rows (grid a) * cols (grid a) \<and> visited S (cameFrom t) k))"






text \<open>
  The terrain categories of the cost model, and the base cost and the multiplier as the
  specification words them: an orthogonal step shares the row or the column.
\<close>

definition road_like :: "tile \<Rightarrow> bool" where
  "road_like t = (t = ROAD \<or> t = PARKING)"

definition vegetation :: "tile \<Rightarrow> bool" where
  "vegetation t = (t = EVERGREEN \<or> t = TREE)"

definition heavy :: "tile \<Rightarrow> bool" where
  "heavy t = (t = CONSTRUCTION \<or> t = FACTORY)"

definition vehicle :: "tile \<Rightarrow> bool" where
  "vehicle t = regex_test [CAR, UFO] t"

definition destination :: "astar \<Rightarrow> int \<Rightarrow> int \<Rightarrow> tile" where
  "destination a r c = (case get (grid a) r c of None \<Rightarrow> [] | Some t \<Rightarrow> t)"

definition spec_base :: "int \<Rightarrow> int \<Rightarrow> int \<Rightarrow> int \<Rightarrow> real" where
  "spec_base r1 c1 r2 c2 = (if r1 = r2 \<or> c1 = c2 then 1.0 else 1.414)"

definition spec_multiplier :: "tile \<Rightarrow> real" where
  "spec_multiplier t =
     (if road_like t then 0.7 else if vegetation t then 1.15 else if heavy t then 1.3
      else if vehicle t then 1.2 else 1.0)"

text \<open>
  The total cost of a sequence of cells under the cost model of each engine: the sum of
  the costs of its steps.
\<close>

fun path_cost :: "astar \<Rightarrow> cell list \<Rightarrow> real" where
  "path_cost a (p # q # ps) = getMoveCost a (fst p) (snd p) (fst q) (snd q) + path_cost a (q # ps)"
| "path_cost a ps = 0"

fun worker_path_cost :: "cell list \<Rightarrow> real" where
  "worker_path_cost (p # q # ps) =
     worker_base (fst q - fst p, snd q - snd p) + worker_path_cost (q # ps)"
| "worker_path_cost ps = 0"

text \<open>A walk of the main-thread engine moves from each cell to one of its \<^verbatim>\<open>neighbors\<close>.\<close>

fun walk :: "astar \<Rightarrow> cell list \<Rightarrow> bool" where
  "walk a (p # q # ps) = (q \<in> set (neighbors a (fst p) (snd p)) \<and> walk a (q # ps))"
| "walk a ps = True"

text \<open>A walk of the worker moves by one of the eight directions, inside the grid.\<close>

fun worker_walk :: "int \<Rightarrow> int \<Rightarrow> cell list \<Rightarrow> bool" where
  "worker_walk nrows ncols (p # q # ps) =
     ((fst q - fst p, snd q - snd p) \<in> set dirs8 \<and> 0 \<le> fst q \<and> fst q < nrows \<and>
      0 \<le> snd q \<and> snd q < ncols \<and> worker_walk nrows ncols (q # ps))"
| "worker_walk nrows ncols ps = True"

text \<open>Small concrete engines and an empty store, for the examples.\<close>

definition empty_store :: store where
  "empty_store = \<lparr>cellObj = (\<lambda>x. (0, 0)), arrObj = (\<lambda>x. []), nextRef = 0\<rparr>"

definition street24 :: grid where
  "street24 = \<lparr>rows = 2, cols = 4, cells = [[], CAR, CAR, [], [], ROAD, ROAD, []]\<rparr>"

definition lane13 :: astar where
  "lane13 = \<lparr>grid = \<lparr>rows = 1, cols = 3, cells = [[], [], []]\<rparr>, cache = Map.empty, diagonal = True\<rparr>"

definition street :: astar where
  "street = \<lparr>grid = street24, cache = Map.empty, diagonal = True\<rparr>"

definition road12 :: astar where
  "road12 = \<lparr>grid = \<lparr>rows = 1, cols = 2, cells = [[], ROAD]\<rparr>, cache = Map.empty, diagonal = True\<rparr>"

definition lane13_job :: job where
  "lane13_job = \<lparr>job_rows = 1, job_cols = 3, job_start = (0, 0), job_goal = (0, 2),
                  job_passable = [1, 0, 1]\<rparr>"

definition far_goal_job :: job where
  "far_goal_job = \<lparr>job_rows = 2, job_cols = 2, job_start = (0, 0), job_goal = (5, 5),
                    job_passable = [1, 1, 1, 1]\<rparr>"

definition town22 :: astar where
  "town22 = \<lparr>grid = \<lparr>rows = 2, cols = 2, cells = [[], [], [], []]\<rparr>,
             cache = Map.empty, diagonal = True\<rparr>"



definition lot23 :: astar where
  "lot23 = \<lparr>grid = \<lparr>rows = 2, cols = 3, cells = [[], ROAD, [], ROAD, [], []]\<rparr>,
            cache = Map.empty, diagonal = True\<rparr>"

section \<open>Properties\<close>

subsection \<open>Evaluation of concrete calls\<close>

lemma replicate_numeral: "replicate (numeral k) x = x # replicate (pred_numeral k) x"
  by (simp add: numeral_eq_Suc)

lemma list_update_numeral: "(x # xs)[numeral k := v] = x # xs[pred_numeral k := v]"
  by (simp add: numeral_eq_Suc)

lemmas eval_defs = findPath_def cacheKey_def show_int_def init_search_def idx_def arr_set_def
  arr_get_def lowest_def f64_def heuristic_def expand_def relax_def neighbors_def dirs8_def
  dirs4_def passablePredicate_def getMoveCost_def get_def index_def js_rem_def set_add_def
  new_path_def new_array_def new_cell_def slice_def Let_def regex_test_def path_at_def
  replicate_numeral list_update_numeral
  CAR_def UFO_def ROAD_def PARKING_def EVERGREEN_def TREE_def CONSTRUCTION_def FACTORY_def BIKE_def

lemmas run_defs = eval_defs returned_path_def then_findPath_def town22_def lane13_def empty_store_def
  search_loop.simps reconstruct.simps

lemma upt_numeral: "[i..<numeral k] = (if i < numeral k then i # [Suc i..<numeral k] else [])"
  by (rule upt_rec)

lemmas worker_defs = worker_find_def init_worker_def worker_relax_def heapPush_def heapPop_def
  smaller_child_def worker_h_def worker_estimate_def worker_base_def js_trunc_div_def
  game_worker_def buildMask_def mask_entry_def game_sync_def upt_numeral
  worker_loop.simps worker_reconstruct.simps siftUp.simps siftDown.simps
  street_def street24_def road12_def

subsection \<open>The cost model\<close>

lemma literals_distinct:
  "ROAD \<noteq> EVERGREEN" "ROAD \<noteq> TREE" "ROAD \<noteq> CONSTRUCTION" "ROAD \<noteq> FACTORY"
  "PARKING \<noteq> EVERGREEN" "PARKING \<noteq> TREE" "PARKING \<noteq> CONSTRUCTION" "PARKING \<noteq> FACTORY"
  "EVERGREEN \<noteq> CONSTRUCTION" "EVERGREEN \<noteq> FACTORY" "TREE \<noteq> CONSTRUCTION" "TREE \<noteq> FACTORY"
  by (simp_all add: ROAD_def PARKING_def EVERGREEN_def TREE_def CONSTRUCTION_def FACTORY_def)

lemma literals_no_vehicle:
  "\<not> regex_test [CAR, UFO] ROAD" "\<not> regex_test [CAR, UFO] PARKING"
  "\<not> regex_test [CAR, UFO] EVERGREEN" "\<not> regex_test [CAR, UFO] TREE"
  "\<not> regex_test [CAR, UFO] CONSTRUCTION" "\<not> regex_test [CAR, UFO] FACTORY"
  by (simp_all add: regex_test_def CAR_def UFO_def ROAD_def PARKING_def EVERGREEN_def TREE_def
        CONSTRUCTION_def FACTORY_def)

text \<open>
  No tile is in two categories, so the order in which \<^verbatim>\<open>getMoveCost\<close> tests them (a later
  test overwrites an earlier multiplier) does not show in its result.
\<close>

lemma categories_exclusive:
  "\<not> (road_like t \<and> vegetation t)" "\<not> (road_like t \<and> heavy t)" "\<not> (road_like t \<and> vehicle t)"
  "\<not> (vegetation t \<and> heavy t)" "\<not> (vegetation t \<and> vehicle t)" "\<not> (heavy t \<and> vehicle t)"
  using literals_distinct literals_no_vehicle
  by (auto simp: road_like_def vegetation_def heavy_def vehicle_def)

lemma getMoveCost_product:
  "getMoveCost a r1 c1 r2 c2 = spec_base r1 c1 r2 c2 * spec_multiplier (destination a r2 c2)"
  using literals_distinct literals_no_vehicle
  by (auto simp: getMoveCost_def Let_def destination_def spec_base_def spec_multiplier_def
        road_like_def vegetation_def heavy_def vehicle_def)

text \<open>
  C6. For every step and every destination terrain, \<^verbatim>\<open>getMoveCost\<close> returns base times
  multiplier: the base is 1.0 for an orthogonal step and 1.414 for a diagonal one, the
  multiplier is 0.7 on road-like terrain, 1.15 on vegetation, 1.3 on heavy industrial
  terrain, 1.2 on vehicle-occupied terrain and 1.0 on any other; the result is strictly
  positive (and, being a real number, finite).
\<close>

theorem getMoveCost_base_times_multiplier:
  "getMoveCost a r1 c1 r2 c2 = spec_base r1 c1 r2 c2 * spec_multiplier (destination a r2 c2)
   \<and> 0 < getMoveCost a r1 c1 r2 c2"
proof -
  let ?t = "destination a r2 c2"
  have "0 < spec_base r1 c1 r2 c2" by (simp add: spec_base_def)
  moreover have "0 < spec_multiplier ?t" by (simp add: spec_multiplier_def)
  ultimately show ?thesis using getMoveCost_product[of a r1 c1 r2 c2] by simp
qed

subsection \<open>Indices of cells\<close>

lemma idx_bounds:
  fixes r c nrows ncols :: int
  assumes "0 \<le> r" "r < nrows" "0 \<le> c" "c < ncols"
  shows "0 \<le> r * ncols + c" "r * ncols + c < nrows * ncols"
proof -
  have "0 \<le> r * ncols" using assms by simp
  then show "0 \<le> r * ncols + c" using assms by simp
  have "r * ncols + c < (r + 1) * ncols" using assms by (simp add: algebra_simps)
  also have "\<dots> \<le> nrows * ncols" using assms by (intro mult_right_mono) auto
  finally show "r * ncols + c < nrows * ncols" .
qed

lemma idx_in_range:
  assumes "in_bounds a p"
  shows "0 \<le> idx a p" "idx a p < rows (grid a) * cols (grid a)"
  using idx_bounds[of "fst p" "rows (grid a)" "snd p" "cols (grid a)"] assms
  by (simp_all add: in_bounds_def idx_def)

subsection \<open>The grid is only read\<close>

lemma town22_diagonal_returns:
  "findPath town22 empty_store (0, 0) (1, 1) NoMask \<noteq> None"
  by (simp add: eval_defs town22_def empty_store_def search_loop.simps reconstruct.simps
        split del: if_split)

text \<open>
  C9. Whenever a call of \<^verbatim>\<open>findPath\<close> returns, the grid of the engine (rows, cols and
  every cell) is what it was before the call. (The mask predicate, when one is passed, is
  a pure function here.)
\<close>

theorem findPath_reads_grid_only:
  assumes "findPath a st start goal maskOrFn = Some (out, a', st')"
  shows "grid a' = grid a"
  using assms
  by (auto simp: findPath_def Let_def split: option.splits if_splits prod.splits)

theorem findPath_reads_grid_only_witness:
  "\<exists>out a' st'. findPath town22 empty_store (0, 0) (1, 1) NoMask = Some (out, a', st')
     \<and> grid a' = grid town22"
proof -
  obtain out a' st' where r: "findPath town22 empty_store (0, 0) (1, 1) NoMask = Some (out, a', st')"
    using town22_diagonal_returns by (cases "findPath town22 empty_store (0, 0) (1, 1) NoMask") auto
  from findPath_reads_grid_only[OF r] r show ?thesis by blast
qed

subsection \<open>The store and the cache\<close>

lemma new_cells_spec:
  "new_cells st ps = (xs, st1) \<Longrightarrow>
     arrObj st1 = arrObj st \<and> nextRef st1 = nextRef st + length ps \<and>
     (\<forall>x < nextRef st. cellObj st1 x = cellObj st x) \<and> map (cellObj st1) xs = ps \<and>
     (\<forall>x \<in> set xs. x < nextRef st1)"
proof (induction ps arbitrary: st xs st1)
  case Nil
  then show ?case by simp
next
  case (Cons p ps)
  let ?st0 = "st\<lparr>cellObj := (cellObj st)(nextRef st := p), nextRef := Suc (nextRef st)\<rparr>"
  obtain ys st2 where r: "new_cells ?st0 ps = (ys, st2)" by (cases "new_cells ?st0 ps")
  from Cons.prems r have e: "xs = nextRef st # ys" "st1 = st2"
    by (simp_all add: new_cell_def)
  from Cons.IH[OF r] have ih:
    "arrObj st2 = arrObj st" "nextRef st2 = Suc (nextRef st) + length ps"
    "\<forall>x < Suc (nextRef st). cellObj st2 x = cellObj ?st0 x" "map (cellObj st2) ys = ps"
    "\<forall>x \<in> set ys. x < nextRef st2"
    by auto
  from ih(3) have "cellObj st2 (nextRef st) = p" by simp
  moreover from ih(3) have "\<forall>x < nextRef st. cellObj st2 x = cellObj st x" by simp
  ultimately show ?case using e ih by auto
qed

lemma new_path_spec:
  assumes "new_path st ps = (p, st1)"
  shows "path_at st1 p = ps" "p < nextRef st1" "nextRef st \<le> p"
proof -
  obtain xs st0 where c: "new_cells st ps = (xs, st0)" by (cases "new_cells st ps")
  from assms c have "new_array st0 xs = (p, st1)" by (simp add: new_path_def)
  then have e: "p = nextRef st0" "st1 = st0\<lparr>arrObj := (arrObj st0)(nextRef st0 := xs), nextRef := Suc (nextRef st0)\<rparr>"
    by (auto simp: new_array_def)
  from new_cells_spec[OF c] have m: "map (cellObj st0) xs = ps" "nextRef st0 = nextRef st + length ps" by simp_all
  show "path_at st1 p = ps" using e m by (simp add: path_at_def)
  show "p < nextRef st1" using e by simp
  show "nextRef st \<le> p" using e m by simp
qed

lemma slice_spec:
  assumes "slice st x = (c, st1)"
  shows "c = nextRef st" "nextRef st1 = Suc (nextRef st)" "cellObj st1 = cellObj st"
    "arrObj st1 = (arrObj st)(nextRef st := arrObj st x)"
  using assms by (auto simp: slice_def new_array_def)

lemma slice_path_at:
  assumes "slice st x = (c, st1)" "x < nextRef st"
  shows "path_at st1 c = path_at st x" "path_at st1 x = path_at st x" "c \<noteq> x"
  using slice_spec[OF assms(1)] assms(2) by (auto simp: path_at_def)

text \<open>What a call computes when it finds no cache entry and returns a path.\<close>

lemma findPath_computed:
  assumes miss: "cache a (cacheKey start goal (grid a)) = None"
      and ret: "findPath a st start goal m = Some (Return (Some path), a', st')"
  shows "\<exists>s ps st1.
    search_loop a (passablePredicate a m) goal (init_search a start goal) = Some s \<and>
    arr_get (cameFrom s) (idx a goal) \<noteq> Some (-1) \<and>
    reconstruct (cameFrom s) (cols (grid a)) (Some (idx a goal)) [] = Some ps \<and>
    new_path st ps = (path, st1) \<and>
    (if length ps < 512
     then \<exists>copy. slice st1 path = (copy, st') \<and>
            a' = a\<lparr>cache := (cache a)(cacheKey start goal (grid a) \<mapsto> copy)\<rparr>
     else st' = st1 \<and> a' = a)"
proof -
  let ?loop = "search_loop a (passablePredicate a m) goal (init_search a start goal)"
  from ret miss have b1: "(case ?loop of None \<Rightarrow> None
      | Some s \<Rightarrow>
          if arr_get (cameFrom s) (idx a goal) = Some (-1) then Some (Return None, a, st)
          else
            (case reconstruct (cameFrom s) (cols (grid a)) (Some (idx a goal)) [] of
               None \<Rightarrow> None
             | Some ps \<Rightarrow>
                 let (path, st1) = new_path st ps
                 in if length ps < 512
                    then let (copy, st2) = slice st1 path
                         in Some (Return (Some path),
                                  a\<lparr>cache := (cache a)(cacheKey start goal (grid a) \<mapsto> copy)\<rparr>, st2)
                    else Some (Return (Some path), a, st1))) = Some (Return (Some path), a', st')"
    by (simp add: findPath_def Let_def split: if_splits)
  then obtain s where s: "?loop = Some s" by (cases ?loop) auto
  let ?rec = "reconstruct (cameFrom s) (cols (grid a)) (Some (idx a goal)) []"
  from b1 s have c: "arr_get (cameFrom s) (idx a goal) \<noteq> Some (-1)"
    by (auto split: if_splits)
  from b1 s c have b2: "(case ?rec of
               None \<Rightarrow> None
             | Some ps \<Rightarrow>
                 let (path, st1) = new_path st ps
                 in if length ps < 512
                    then let (copy, st2) = slice st1 path
                         in Some (Return (Some path),
                                  a\<lparr>cache := (cache a)(cacheKey start goal (grid a) \<mapsto> copy)\<rparr>, st2)
                    else Some (Return (Some path), a, st1)) = Some (Return (Some path), a', st')"
    by simp
  then obtain ps where ps: "?rec = Some ps" by (cases ?rec) auto
  obtain p1 st1 where np: "new_path st ps = (p1, st1)" by (cases "new_path st ps")
  obtain copy st2 where sl: "slice st1 p1 = (copy, st2)" by (cases "slice st1 p1")
  from b2 ps np sl have r:
    "path = p1"
    "length ps < 512 \<Longrightarrow> st' = st2 \<and> a' = a\<lparr>cache := (cache a)(cacheKey start goal (grid a) \<mapsto> copy)\<rparr>"
    "\<not> length ps < 512 \<Longrightarrow> st' = st1 \<and> a' = a"
    by (auto split: if_splits)
  have "new_path st ps = (path, st1)" using np r(1) by simp
  moreover have "if length ps < 512
     then \<exists>copy. slice st1 path = (copy, st') \<and>
            a' = a\<lparr>cache := (cache a)(cacheKey start goal (grid a) \<mapsto> copy)\<rparr>
     else st' = st1 \<and> a' = a"
    using sl r by simp
  ultimately show ?thesis using s c ps by blast
qed

text \<open>
  C4. Every search that completes with a path (the call finds no cache entry for its key,
  the loop ends with \<^verbatim>\<open>cameFrom[goalIdx]\<close> set, and the walk back yields the sequence
  \<open>ps\<close>) returns \<open>ps\<close> to the caller in a new array, whatever its length; the key is in
  the cache afterwards if and only if \<open>ps\<close> has fewer than 512 cells, and then the entry is
  a copy of the path in an array of its own. A path of 512 cells or more is returned all
  the same and leaves the cache as it was. No other key is touched.
\<close>

theorem cache_insert_iff_short:
  assumes miss: "cache a (cacheKey start goal (grid a)) = None"
      and size: "0 \<le> rows (grid a) * cols (grid a)"
      and loop: "search_loop a (passablePredicate a m) goal (init_search a start goal) = Some s"
      and reached: "arr_get (cameFrom s) (idx a goal) \<noteq> Some (-1)"
      and rec: "reconstruct (cameFrom s) (cols (grid a)) (Some (idx a goal)) [] = Some ps"
  shows "\<exists>path a' st'.
           findPath a st start goal m = Some (Return (Some path), a', st') \<and>
           path_at st' path = ps \<and>
           (cacheKey start goal (grid a) \<in> dom (cache a')) = (length ps < 512) \<and>
           (length ps < 512 \<longrightarrow>
              (\<exists>copy. cache a' (cacheKey start goal (grid a)) = Some copy \<and> copy \<noteq> path \<and>
                      path_at st' copy = ps)) \<and>
           (512 \<le> length ps \<longrightarrow> cache a' = cache a) \<and>
           (\<forall>k. k \<noteq> cacheKey start goal (grid a) \<longrightarrow> cache a' k = cache a k)"
proof -
  let ?key = "cacheKey start goal (grid a)"
  obtain path st1 where np: "new_path st ps = (path, st1)" by (cases "new_path st ps")
  note p1 = new_path_spec[OF np]
  show ?thesis
  proof (cases "length ps < 512")
    case True
    obtain copy st2 where sl: "slice st1 path = (copy, st2)" by (cases "slice st1 path")
    let ?a' = "a\<lparr>cache := (cache a)(?key \<mapsto> copy)\<rparr>"
    have r: "findPath a st start goal m = Some (Return (Some path), ?a', st2)"
      using miss size loop reached rec np sl True by (simp add: findPath_def Let_def)
    from slice_path_at[OF sl p1(2)] p1(1) have
      v: "path_at st2 path = ps" "path_at st2 copy = ps" "copy \<noteq> path" by simp_all
    have c: "cache ?a' ?key = Some copy" by simp
    have 2: "(?key \<in> dom (cache ?a')) = (length ps < 512)" using True by simp
    have 3: "\<exists>copy. cache ?a' ?key = Some copy \<and> copy \<noteq> path \<and> path_at st2 copy = ps"
      using v by simp
    have 4: "512 \<le> length ps \<longrightarrow> cache ?a' = cache a" using True by simp
    have 5: "\<forall>k. k \<noteq> ?key \<longrightarrow> cache ?a' k = cache a k" by simp
    from r v(1) 2 3 4 5 show ?thesis by blast
  next
    case False
    have r: "findPath a st start goal m = Some (Return (Some path), a, st1)"
      using miss size loop reached rec np False by (simp add: findPath_def Let_def)
    have 2: "(?key \<in> dom (cache a)) = (length ps < 512)" using miss False by (simp add: dom_def)
    from r p1(1) 2 False show ?thesis by auto
  qed
qed

theorem cache_insert_iff_short_witness:
  "cache town22 (cacheKey (0, 0) (1, 1) (grid town22)) = None
   \<and> 0 \<le> rows (grid town22) * cols (grid town22)
   \<and> (\<exists>s. search_loop town22 (passablePredicate town22 NoMask) (1, 1) (init_search town22 (0, 0) (1, 1)) = Some s
        \<and> arr_get (cameFrom s) (idx town22 (1, 1)) \<noteq> Some (-1)
        \<and> reconstruct (cameFrom s) (cols (grid town22)) (Some (idx town22 (1, 1))) [] = Some [(0, 0), (1, 1)])
   \<and> (\<exists>path a' st'. findPath town22 empty_store (0, 0) (1, 1) NoMask = Some (Return (Some path), a', st')
        \<and> path_at st' path = [(0, 0), (1, 1)]
        \<and> cacheKey (0, 0) (1, 1) (grid town22) \<in> dom (cache a'))"
proof -
  let ?P = "passablePredicate town22 NoMask"
  have miss: "cache town22 (cacheKey (0, 0) (1, 1) (grid town22)) = None"
    and size: "0 \<le> rows (grid town22) * cols (grid town22)"
    by (simp_all add: town22_def)
  have "case search_loop town22 ?P (1, 1) (init_search town22 (0, 0) (1, 1)) of
          None \<Rightarrow> False
        | Some s \<Rightarrow> arr_get (cameFrom s) (idx town22 (1, 1)) \<noteq> Some (-1) \<and>
            reconstruct (cameFrom s) (cols (grid town22)) (Some (idx town22 (1, 1))) [] = Some [(0, 0), (1, 1)]"
    by (simp add: run_defs split del: if_split)
  then obtain s where s: "search_loop town22 ?P (1, 1) (init_search town22 (0, 0) (1, 1)) = Some s"
    and c: "arr_get (cameFrom s) (idx town22 (1, 1)) \<noteq> Some (-1)"
    and b: "reconstruct (cameFrom s) (cols (grid town22)) (Some (idx town22 (1, 1))) [] = Some [(0, 0), (1, 1)]"
    by (cases "search_loop town22 ?P (1, 1) (init_search town22 (0, 0) (1, 1))") auto
  from cache_insert_iff_short[OF miss size s c b, of empty_store]
  obtain path a' st' where
    "findPath town22 empty_store (0, 0) (1, 1) NoMask = Some (Return (Some path), a', st')"
    "path_at st' path = [(0, 0), (1, 1)]"
    "cacheKey (0, 0) (1, 1) (grid town22) \<in> dom (cache a')"
    by auto
  with miss size s c b show ?thesis by blast
qed

subsection \<open>Typed arrays and the open set\<close>

lemma length_arr_set [simp]: "length (arr_set xs i v) = length xs"
  by (simp add: arr_set_def)

lemma nth_arr_set:
  "0 \<le> j \<Longrightarrow> arr_set xs i v ! nat j = (if i = j \<and> i < int (length xs) then v else xs ! nat j)"
  by (auto simp: arr_set_def nth_list_update)

lemma set_arr_set: "set (arr_set xs i v) \<subseteq> insert v (set xs)"
  by (auto simp: arr_set_def dest: subsetD[OF set_update_subset_insert])

lemma arr_get_in_range:
  "0 \<le> i \<Longrightarrow> i < int (length xs) \<Longrightarrow> arr_get xs i = Some (xs ! nat i)"
  by (simp add: arr_get_def)

lemma set_set_add [simp]: "set (set_add k xs) = insert k (set xs)"
  by (auto simp: set_add_def)

lemma fold_invariant:
  assumes "\<And>x t. x \<in> set xs \<Longrightarrow> I t \<Longrightarrow> I (f x t)" and "I t"
  shows "I (fold f xs t)"
  using assms by (induction xs arbitrary: t) auto

lemma fold_id: "(\<And>x t. f x t = t) \<Longrightarrow> fold f xs t = t"
  by (induction xs) auto

lemma lowest_fold_mem:
  "fst (fold (\<lambda>k (current, mn). if num_less (f64 fc k) mn then (k, f64 fc k) else (current, mn))
          opn (c, m)) \<in> insert c (set opn)"
  by (induction opn arbitrary: c m) (auto split: if_splits)

lemma lowest_mem: "lowest fc opn = -1 \<or> lowest fc opn \<in> set opn"
  using lowest_fold_mem[of fc opn "-1" Infinity] by (auto simp: lowest_def)

subsection \<open>The loop of the main-thread engine\<close>

lemma search_loop_invariant:
  assumes run: "search_loop a P goal s = Some s'"
      and init: "I s"
      and step: "\<And>t. I t \<Longrightarrow> openSet t \<noteq> [] \<Longrightarrow> lowest (fCost t) (openSet t) \<noteq> idx a goal \<Longrightarrow>
                  I (expand a P goal (lowest (fCost t) (openSet t))
                       (t\<lparr>openSet := removeAll (lowest (fCost t) (openSet t)) (openSet t)\<rparr>))"
  shows "I s'"
proof -
  have "a = a \<longrightarrow> P = P \<longrightarrow> goal = goal \<longrightarrow> I s \<longrightarrow> I s'"
  proof (rule search_loop.raw_induct[where P = "\<lambda>a0 P0 g0 t y. a0 = a \<longrightarrow> P0 = P \<longrightarrow> g0 = goal \<longrightarrow> I t \<longrightarrow> I y"
          and a = a and passable = P and goal = goal and s = s and y = s'])
    show "search_loop a P goal s = Some s'" by (rule run)
  next
    fix loop :: "astar \<Rightarrow> (cell \<Rightarrow> bool) \<Rightarrow> cell \<Rightarrow> search \<Rightarrow> search option"
    fix a0 P0 g0 t y
    assume ih: "\<And>a1 P1 g1 t1 y1. loop a1 P1 g1 t1 = Some y1 \<Longrightarrow>
                  a1 = a \<longrightarrow> P1 = P \<longrightarrow> g1 = goal \<longrightarrow> I t1 \<longrightarrow> I y1"
      and body: "(if openSet t = [] then Some t
                  else let current = lowest (fCost t) (openSet t)
                       in if current = idx a0 g0 then Some t
                          else loop a0 P0 g0
                                 (expand a0 P0 g0 current
                                    (t\<lparr>openSet := removeAll current (openSet t)\<rparr>))) = Some y"
    show "a0 = a \<longrightarrow> P0 = P \<longrightarrow> g0 = goal \<longrightarrow> I t \<longrightarrow> I y"
    proof (intro impI)
      assume e: "a0 = a" "P0 = P" "g0 = goal" and it: "I t"
      show "I y"
      proof (cases "openSet t = []")
        case True
        with body it show ?thesis by simp
      next
        case False
        let ?cur = "lowest (fCost t) (openSet t)"
        show ?thesis
        proof (cases "?cur = idx a goal")
          case True
          with body False it e show ?thesis by (simp add: Let_def)
        next
          case c: False
          let ?t1 = "expand a P goal ?cur (t\<lparr>openSet := removeAll ?cur (openSet t)\<rparr>)"
          from body False c e have "loop a P goal ?t1 = Some y" by (simp add: Let_def)
          from ih[OF this] step[OF it False c] show ?thesis by simp
        qed
      qed
    qed
  qed
  with init show ?thesis by simp
qed

lemma relax_length [simp]: "length (cameFrom (relax a P goal cur nb t)) = length (cameFrom t)"
  by (simp add: relax_def Let_def)

lemma expand_length [simp]: "length (cameFrom (expand a P goal cur t)) = length (cameFrom t)"
  unfolding expand_def
  by (rule fold_invariant[where I = "\<lambda>u. length (cameFrom u) = length (cameFrom t)"]) simp_all

lemma search_loop_length:
  assumes "search_loop a P goal (init_search a start goal) = Some s"
  shows "length (cameFrom s) = nat (rows (grid a) * cols (grid a))"
  by (rule search_loop_invariant[OF assms, where I = "\<lambda>t. length (cameFrom t) = nat (rows (grid a) * cols (grid a))"])
     (simp_all add: init_search_def Let_def)

lemma relax_goal_kept:
  assumes "0 \<le> idx a goal" "goal_kept a goal t"
  shows "goal_kept a goal (relax a P goal cur nb t)"
  using assms by (auto simp: goal_kept_def relax_def Let_def nth_arr_set)

lemma expand_goal_kept:
  assumes "0 \<le> idx a goal" "goal_kept a goal t"
  shows "goal_kept a goal (expand a P goal cur t)"
  unfolding expand_def
  by (rule fold_invariant[where I = "goal_kept a goal"]) (use assms relax_goal_kept in auto)

lemma search_loop_goal_kept:
  assumes g: "0 \<le> idx a goal" "idx a goal < rows (grid a) * cols (grid a)"
      and run: "search_loop a P goal (init_search a start goal) = Some s"
  shows "goal_kept a goal s"
proof (rule search_loop_invariant[OF run, where I = "goal_kept a goal"])
  show "goal_kept a goal (init_search a start goal)"
    using g by (simp add: goal_kept_def init_search_def Let_def)
next
  fix t
  assume t: "goal_kept a goal t" and c: "lowest (fCost t) (openSet t) \<noteq> idx a goal"
  let ?cur = "lowest (fCost t) (openSet t)"
  from t c have "goal_kept a goal (t\<lparr>openSet := removeAll ?cur (openSet t)\<rparr>)"
    by (auto simp: goal_kept_def)
  from expand_goal_kept[OF g(1) this]
  show "goal_kept a goal (expand a P goal ?cur (t\<lparr>openSet := removeAll ?cur (openSet t)\<rparr>))" .
qed

lemma sync_unreachable_returns_null:
  assumes miss: "cache a (cacheKey start goal (grid a)) = None"
      and g: "0 \<le> idx a goal" "idx a goal < rows (grid a) * cols (grid a)"
      and run: "search_loop a (passablePredicate a m) goal (init_search a start goal) = Some s"
      and empty: "openSet s = []"
  shows "findPath a st start goal m = Some (Return None, a, st)"
proof -
  from search_loop_goal_kept[OF g run] empty have
    l: "length (cameFrom s) = nat (rows (grid a) * cols (grid a))"
    and c: "cameFrom s ! nat (idx a goal) = -1"
    by (auto simp: goal_kept_def)
  from g l have "arr_get (cameFrom s) (idx a goal) = Some (-1)"
    using c by (simp add: arr_get_def)
  moreover from g have "\<not> rows (grid a) * cols (grid a) < 0" by simp
  ultimately show ?thesis using miss run by (simp add: findPath_def Let_def)
qed

subsection \<open>The heap and the loop of the worker\<close>

lemma set_siftUp: "i < length hp \<Longrightarrow> set (siftUp fc hp i) = set hp"
proof (induction fc hp i rule: siftUp.induct)
  case (1 fc hp i)
  show ?case
  proof (cases "i > 0 \<and> num_less (f64 fc (hp ! i)) (f64 fc (hp ! ((i - 1) div 2)))")
    case True
    let ?p = "(i - 1) div 2"
    from True 1(2) have p: "?p < length hp" by simp
    have "set (siftUp fc (hp[i := hp ! ?p, ?p := hp ! i]) ?p) = set (hp[i := hp ! ?p, ?p := hp ! i])"
      using 1(1) True p by simp
    also have "\<dots> = set hp" using 1(2) p by (simp add: set_swap)
    finally show ?thesis using True by (subst siftUp.simps) simp
  next
    case False
    then show ?thesis by (subst siftUp.simps) auto
  qed
qed

lemma smaller_child_bound:
  "i < length hp \<Longrightarrow> smaller_child fc hp i < length hp"
  by (auto simp: smaller_child_def Let_def)

lemma set_siftDown: "i < length hp \<Longrightarrow> set (siftDown fc hp i) = set hp"
proof (induction fc hp i rule: siftDown.induct)
  case (1 fc hp i)
  let ?c = "smaller_child fc hp i"
  show ?case
  proof (cases "?c \<noteq> i")
    case True
    have c: "?c < length hp" using 1(2) by (rule smaller_child_bound)
    have "set (siftDown fc (hp[i := hp ! ?c, ?c := hp ! i]) ?c) = set (hp[i := hp ! ?c, ?c := hp ! i])"
      using 1(1)[OF True] c by simp
    also have "\<dots> = set hp" using 1(2) c by (simp add: set_swap)
    finally show ?thesis using True by (subst siftDown.simps) simp
  next
    case False
    then show ?thesis by (subst siftDown.simps) simp
  qed
qed

lemma set_heapPush: "set (heapPush fc hp k) = insert k (set hp)"
  by (simp add: heapPush_def set_siftUp)

lemma heapPop_keeps:
  assumes "x \<in> set hp" "x \<noteq> fst (heapPop fc hp)"
  shows "x \<in> set (snd (heapPop fc hp))"
proof (cases hp)
  case Nil
  with assms show ?thesis by simp
next
  case (Cons y ys)
  show ?thesis
  proof (cases "ys = []")
    case True
    with Cons assms show ?thesis by (simp add: heapPop_def Let_def)
  next
    case False
    then have b: "butlast hp = y # butlast ys" "last hp = last ys" using Cons by simp_all
    have "set ((butlast hp)[0 := last hp]) = set (last ys # butlast ys)" using b by simp
    also have "\<dots> = set ys" using False
      by (metis append_butlast_last_id list.set(2) set_append insert_is_Un Un_commute list.simps(15) empty_set)
    finally have s: "set ((butlast hp)[0 := last hp]) = set ys" .
    have x: "x \<in> set ys" using assms Cons by (simp add: heapPop_def Let_def split: if_splits)
    have "snd (heapPop fc hp) = siftDown fc ((butlast hp)[0 := last hp]) 0"
      using Cons b by (simp add: heapPop_def Let_def)
    then show ?thesis using s x b by (simp add: set_siftDown)
  qed
qed

lemma worker_loop_exhausted:
  assumes run: "worker_loop msg s = Some (False, s')"
      and init: "I s"
      and step: "\<And>t. I t \<Longrightarrow> heap t \<noteq> [] \<Longrightarrow> fst (heapPop (f_arr t) (heap t)) \<noteq> goalIdx msg \<Longrightarrow>
                  I (fold (worker_relax msg (fst (heapPop (f_arr t) (heap t)))) dirs8
                       (t\<lparr>heap := snd (heapPop (f_arr t) (heap t))\<rparr>))"
  shows "I s' \<and> heap s' = []"
proof -
  let ?Q = "\<lambda>msg0 t y. msg0 = msg \<longrightarrow> I t \<longrightarrow> fst y = False \<longrightarrow> I (snd y) \<and> heap (snd y) = []"
  have "?Q msg s (False, s')"
  proof (rule worker_loop.raw_induct[where P = ?Q and msg = msg and s = s and y = "(False, s')"])
    show "worker_loop msg s = Some (False, s')" by (rule run)
  next
    fix loop :: "job \<Rightarrow> wsearch \<Rightarrow> (bool \<times> wsearch) option"
    fix msg0 t y
    assume ih: "\<And>msg1 t1 y1. loop msg1 t1 = Some y1 \<Longrightarrow> ?Q msg1 t1 y1"
      and body: "(if heap t = [] then Some (False, t)
                  else let popped = heapPop (f_arr t) (heap t); current = fst popped;
                           s1 = t\<lparr>heap := snd popped\<rparr>
                       in if current = fst (job_goal msg0) * job_cols msg0 + snd (job_goal msg0)
                          then Some (True, s1)
                          else loop msg0 (fold (worker_relax msg0 current) dirs8 s1)) = Some y"
    show "?Q msg0 t y"
    proof (intro impI)
      assume e: "msg0 = msg" and it: "I t" and f: "fst y = False"
      show "I (snd y) \<and> heap (snd y) = []"
      proof (cases "heap t = []")
        case True
        with body it show ?thesis by auto
      next
        case False
        let ?cur = "fst (heapPop (f_arr t) (heap t))"
        let ?t1 = "fold (worker_relax msg ?cur) dirs8 (t\<lparr>heap := snd (heapPop (f_arr t) (heap t))\<rparr>)"
        have c: "?cur \<noteq> goalIdx msg"
        proof
          assume "?cur = goalIdx msg"
          with body False e have "y = (True, t\<lparr>heap := snd (heapPop (f_arr t) (heap t))\<rparr>)"
            by (simp add: Let_def goalIdx_def)
          with f show False by simp
        qed
        with body False e have "loop msg ?t1 = Some y" by (simp add: Let_def goalIdx_def)
        from ih[OF this] step[OF it False c] f show ?thesis by simp
      qed
    qed
  qed
  with init show ?thesis by simp
qed

lemma worker_loop_invariant:
  assumes run: "worker_loop msg s = Some (b, s')"
      and init: "I s"
      and step: "\<And>t. I t \<Longrightarrow> heap t \<noteq> [] \<Longrightarrow> fst (heapPop (f_arr t) (heap t)) \<noteq> goalIdx msg \<Longrightarrow>
                  I (fold (worker_relax msg (fst (heapPop (f_arr t) (heap t)))) dirs8
                       (t\<lparr>heap := snd (heapPop (f_arr t) (heap t))\<rparr>))"
      and brk: "\<And>t. I t \<Longrightarrow> heap t \<noteq> [] \<Longrightarrow> fst (heapPop (f_arr t) (heap t)) = goalIdx msg \<Longrightarrow>
                  R True (t\<lparr>heap := snd (heapPop (f_arr t) (heap t))\<rparr>)"
      and ext: "\<And>t. I t \<Longrightarrow> heap t = [] \<Longrightarrow> R False t"
  shows "R b s'"
proof -
  let ?Q = "\<lambda>msg0 t y. msg0 = msg \<longrightarrow> I t \<longrightarrow> R (fst y) (snd y)"
  have "?Q msg s (b, s')"
  proof (rule worker_loop.raw_induct[where P = ?Q and msg = msg and s = s and y = "(b, s')"])
    show "worker_loop msg s = Some (b, s')" by (rule run)
  next
    fix loop :: "job \<Rightarrow> wsearch \<Rightarrow> (bool \<times> wsearch) option"
    fix msg0 t y
    assume ih: "\<And>msg1 t1 y1. loop msg1 t1 = Some y1 \<Longrightarrow> ?Q msg1 t1 y1"
      and body: "(if heap t = [] then Some (False, t)
                  else let popped = heapPop (f_arr t) (heap t); current = fst popped;
                           s1 = t\<lparr>heap := snd popped\<rparr>
                       in if current = fst (job_goal msg0) * job_cols msg0 + snd (job_goal msg0)
                          then Some (True, s1)
                          else loop msg0 (fold (worker_relax msg0 current) dirs8 s1)) = Some y"
    show "?Q msg0 t y"
    proof (intro impI)
      assume e: "msg0 = msg" and it: "I t"
      show "R (fst y) (snd y)"
      proof (cases "heap t = []")
        case True
        with body ext[OF it] show ?thesis by auto
      next
        case False
        let ?cur = "fst (heapPop (f_arr t) (heap t))"
        let ?t0 = "t\<lparr>heap := snd (heapPop (f_arr t) (heap t))\<rparr>"
        let ?t1 = "fold (worker_relax msg ?cur) dirs8 ?t0"
        show ?thesis
        proof (cases "?cur = goalIdx msg")
          case True
          with body False e have "y = (True, ?t0)" by (simp add: Let_def goalIdx_def)
          with brk[OF it False True] show ?thesis by simp
        next
          case c: False
          with body False e have "loop msg ?t1 = Some y" by (simp add: Let_def goalIdx_def)
          from ih[OF this] step[OF it False c] show ?thesis by simp
        qed
      qed
    qed
  qed
  with init show ?thesis by simp
qed

lemma worker_relax_length [simp]: "length (came (worker_relax msg cur d t)) = length (came t)"
  by (simp add: worker_relax_def Let_def)

lemma worker_loop_length:
  assumes "worker_loop msg (init_worker msg) = Some (b, s)"
  shows "length (came s) = nat (job_rows msg * job_cols msg)"
proof (rule worker_loop_invariant[OF assms,
      where I = "\<lambda>t. length (came t) = nat (job_rows msg * job_cols msg)"
        and R = "\<lambda>b t. length (came t) = nat (job_rows msg * job_cols msg)"])
  show "length (came (init_worker msg)) = nat (job_rows msg * job_cols msg)"
    by (simp add: init_worker_def Let_def)
next
  fix t :: wsearch
  assume "length (came t) = nat (job_rows msg * job_cols msg)"
  then show "length (came (fold (worker_relax msg (fst (heapPop (f_arr t) (heap t)))) dirs8
                       (t\<lparr>heap := snd (heapPop (f_arr t) (heap t))\<rparr>))) = nat (job_rows msg * job_cols msg)"
    by (intro fold_invariant[where I = "\<lambda>u. length (came u) = nat (job_rows msg * job_cols msg)"]) simp_all
qed simp_all

lemma worker_relax_goal_kept:
  assumes g: "0 \<le> goalIdx msg" and k: "worker_goal_kept msg t"
  shows "worker_goal_kept msg (worker_relax msg cur d t)"
  using assms
  by (auto simp: worker_goal_kept_def worker_relax_def Let_def nth_arr_set set_heapPush arr_get_def
      split: if_splits)

lemma init_worker_heap: "heap (init_worker msg) = [fst (job_start msg) * job_cols msg + snd (job_start msg)]"
  by (simp add: init_worker_def Let_def heapPush_def siftUp.simps)

lemma init_worker_goal_kept:
  assumes "0 \<le> goalIdx msg" "goalIdx msg < job_rows msg * job_cols msg"
  shows "worker_goal_kept msg (init_worker msg)"
  using assms
  by (auto simp: worker_goal_kept_def init_worker_heap)
     (auto simp: init_worker_def Let_def nth_arr_set split: if_splits)

lemma worker_unreachable_returns_null:
  assumes g: "0 \<le> goalIdx msg" "goalIdx msg < job_rows msg * job_cols msg"
      and run: "worker_loop msg (init_worker msg) = Some (False, s)"
  shows "worker_find msg = Some None"
proof -
  have "worker_goal_kept msg s \<and> heap s = []"
  proof (rule worker_loop_exhausted[OF run, where I = "worker_goal_kept msg"])
    show "worker_goal_kept msg (init_worker msg)" using g by (rule init_worker_goal_kept)
  next
    fix t
    assume t: "worker_goal_kept msg t" and c: "fst (heapPop (f_arr t) (heap t)) \<noteq> goalIdx msg"
    let ?cur = "fst (heapPop (f_arr t) (heap t))"
    have "worker_goal_kept msg (t\<lparr>heap := snd (heapPop (f_arr t) (heap t))\<rparr>)"
      using t c heapPop_keeps[of "goalIdx msg" "heap t" "f_arr t"]
      by (auto simp: worker_goal_kept_def)
    then show "worker_goal_kept msg (fold (worker_relax msg ?cur) dirs8
                 (t\<lparr>heap := snd (heapPop (f_arr t) (heap t))\<rparr>))"
      by (rule fold_invariant[where I = "worker_goal_kept msg", rotated])
         (rule worker_relax_goal_kept[OF g(1)])
  qed
  then have "came s ! nat (goalIdx msg) = -1" and "length (came s) = nat (job_rows msg * job_cols msg)"
    by (auto simp: worker_goal_kept_def)
  with g have "arr_get (came s) (goalIdx msg) = Some (-1)" by (simp add: arr_get_def)
  moreover from g have "\<not> job_rows msg * job_cols msg < 0" by simp
  ultimately show ?thesis using run by (simp add: worker_find_def Let_def goalIdx_def)
qed

lemma worker_start_eq_goal:
  assumes s: "job_start msg = job_goal msg"
      and g: "0 \<le> goalIdx msg" "goalIdx msg < job_rows msg * job_cols msg"
  shows "worker_find msg = Some None"
proof -
  have h: "heap (init_worker msg) = [goalIdx msg]"
    using s by (simp add: init_worker_heap goalIdx_def)
  have "worker_loop msg (init_worker msg) = Some (True, (init_worker msg)\<lparr>heap := []\<rparr>)"
    by (subst worker_loop.simps) (simp add: h heapPop_def Let_def goalIdx_def)
  moreover have "arr_get (came ((init_worker msg)\<lparr>heap := []\<rparr>)) (goalIdx msg) = Some (-1)"
    using g by (simp add: init_worker_def Let_def arr_get_def)
  moreover from g have "\<not> job_rows msg * job_cols msg < 0" by simp
  ultimately show ?thesis by (simp add: worker_find_def Let_def goalIdx_def)
qed

subsection \<open>Start equal to goal\<close>

text \<open>
  C1 (what the code does). With start = goal = \<open>p\<close>, a cell of the grid, and no cache
  entry for the pair, the first entry picked is the goal, the loop is left by
  \<^verbatim>\<open>break\<close> with \<^verbatim>\<open>cameFrom[goalIdx]\<close> still \<open>-1\<close>, and \<^verbatim>\<open>findPath\<close> returns
  \<^verbatim>\<open>null\<close>, not the one-cell path; nothing is cached, so every later call does the same.
  The worker, with the same test, posts \<^verbatim>\<open>path: null\<close>.
\<close>

theorem findPath_start_eq_goal:
  assumes "in_bounds a p" and "cache a (cacheKey p p (grid a)) = None"
  shows "findPath a st p p maskOrFn = Some (Return None, a, st)
         \<and> worker_find \<lparr>job_rows = rows (grid a), job_cols = cols (grid a), job_start = p,
                         job_goal = p, job_passable = passable\<rparr> = Some None"
proof -
  let ?n = "rows (grid a) * cols (grid a)"
  let ?msg = "\<lparr>job_rows = rows (grid a), job_cols = cols (grid a), job_start = p,
               job_goal = p, job_passable = passable\<rparr>"
  have r: "0 \<le> idx a p" "idx a p < ?n" using idx_in_range[OF assms(1)] by simp_all
  then have n: "\<not> ?n < 0" by simp
  have h: "heuristic a p p = 0" by (simp add: heuristic_def)
  have low: "lowest (fCost (init_search a p p)) (openSet (init_search a p p)) = idx a p"
    using r by (simp add: init_search_def Let_def lowest_def f64_def arr_get_def arr_set_def h)
  have loop: "search_loop a (passablePredicate a maskOrFn) p (init_search a p p) = Some (init_search a p p)"
  proof -
    have ne: "openSet (init_search a p p) \<noteq> []" by (simp add: init_search_def Let_def)
    show ?thesis by (subst search_loop.simps) (simp add: low ne)
  qed
  have cf: "arr_get (cameFrom (init_search a p p)) (idx a p) = Some (-1)"
    using r by (simp add: init_search_def Let_def arr_get_def)
  have sync: "findPath a st p p maskOrFn = Some (Return None, a, st)"
    using assms(2) n by (simp add: findPath_def Let_def loop cf)
  have "goalIdx ?msg = idx a p" by (simp add: goalIdx_def idx_def)
  with r have "worker_find ?msg = Some None"
    by (intro worker_start_eq_goal) simp_all
  with sync show ?thesis by simp
qed

theorem findPath_start_eq_goal_witness:
  "in_bounds town22 (0, 0) \<and> cache town22 (cacheKey (0, 0) (0, 0) (grid town22)) = None
   \<and> findPath town22 empty_store (0, 0) (0, 0) NoMask = Some (Return None, town22, empty_store)
   \<and> worker_find \<lparr>job_rows = 2, job_cols = 2, job_start = (0, 0), job_goal = (0, 0),
                   job_passable = [1, 1, 1, 1]\<rparr> = Some None"
proof -
  have b: "in_bounds town22 (0, 0)" by (simp add: in_bounds_def town22_def)
  have c: "cache town22 (cacheKey (0, 0) (0, 0) (grid town22)) = None" by (simp add: town22_def)
  have g: "rows (grid town22) = 2" "cols (grid town22) = 2" by (simp_all add: town22_def)
  from findPath_start_eq_goal[OF b c, of empty_store NoMask "[1, 1, 1, 1]"] b c show ?thesis
    by (simp add: g)
qed

subsection \<open>The frontier empties\<close>

text \<open>
  C7. For every call whose goal has its index \<^verbatim>\<open>r*cols + c\<close> inside the arrays of the
  search, as every goal inside the grid has (a goal outside the grid is a violated
  precondition in the specification): when the loop of the main-thread engine ends with
  \<^verbatim>\<open>open\<close> empty, \<^verbatim>\<open>findPath\<close> (finding no cache entry) returns \<^verbatim>\<open>null\<close> as an
  ordinary value, throws nothing, and leaves the engine and the store as they were; when
  the loop of the worker ends with the heap empty, the worker posts the message with
  \<^verbatim>\<open>path: null\<close>.
\<close>

theorem unreachable_returns_null:
  "(cache a (cacheKey start goal (grid a)) = None \<and>
    0 \<le> idx a goal \<and> idx a goal < rows (grid a) * cols (grid a) \<and>
    search_loop a (passablePredicate a m) goal (init_search a start goal) = Some s \<and>
    openSet s = []
    \<longrightarrow> findPath a st start goal m = Some (Return None, a, st))
   \<and> (0 \<le> goalIdx msg \<and> goalIdx msg < job_rows msg * job_cols msg \<and>
       worker_loop msg (init_worker msg) = Some (False, ws)
       \<longrightarrow> worker_find msg = Some None)"
  using sync_unreachable_returns_null[of a start goal m s st]
    worker_unreachable_returns_null[of msg ws]
  by simp

theorem unreachable_returns_null_witness:
  "cache lane13 (cacheKey (0, 0) (0, 2) (grid lane13)) = None
   \<and> 0 \<le> idx lane13 (0, 2) \<and> idx lane13 (0, 2) < rows (grid lane13) * cols (grid lane13)
   \<and> (\<exists>s. search_loop lane13 (passablePredicate lane13 (MaskArr [1, 0, 1])) (0, 2)
              (init_search lane13 (0, 0) (0, 2)) = Some s \<and> openSet s = [])
   \<and> findPath lane13 empty_store (0, 0) (0, 2) (MaskArr [1, 0, 1]) = Some (Return None, lane13, empty_store)
   \<and> 0 \<le> goalIdx lane13_job \<and> goalIdx lane13_job < job_rows lane13_job * job_cols lane13_job
   \<and> (\<exists>ws. worker_loop lane13_job (init_worker lane13_job) = Some (False, ws))
   \<and> worker_find lane13_job = Some None"
proof -
  let ?P = "passablePredicate lane13 (MaskArr [1, 0, 1])"
  have h: "cache lane13 (cacheKey (0, 0) (0, 2) (grid lane13)) = None"
    "0 \<le> idx lane13 (0, 2)" "idx lane13 (0, 2) < rows (grid lane13) * cols (grid lane13)"
    by (simp_all add: lane13_def idx_def)
  have "case search_loop lane13 ?P (0, 2) (init_search lane13 (0, 0) (0, 2)) of
          None \<Rightarrow> False | Some s \<Rightarrow> openSet s = []"
    by (simp add: run_defs split del: if_split)
  then obtain s where s: "search_loop lane13 ?P (0, 2) (init_search lane13 (0, 0) (0, 2)) = Some s"
    and e: "openSet s = []"
    by (cases "search_loop lane13 ?P (0, 2) (init_search lane13 (0, 0) (0, 2))") auto
  have g: "0 \<le> goalIdx lane13_job" "goalIdx lane13_job < job_rows lane13_job * job_cols lane13_job"
    by (simp_all add: goalIdx_def lane13_job_def)
  have "case worker_loop lane13_job (init_worker lane13_job) of
          None \<Rightarrow> False | Some (reached, ws) \<Rightarrow> \<not> reached"
    by (simp add: eval_defs worker_defs lane13_job_def split del: if_split)
  then obtain ws where w: "worker_loop lane13_job (init_worker lane13_job) = Some (False, ws)"
    by (cases "worker_loop lane13_job (init_worker lane13_job)") auto
  from unreachable_returns_null[of lane13 "(0, 0)" "(0, 2)" "MaskArr [1, 0, 1]" s empty_store lane13_job ws]
    h s e g w
  have "findPath lane13 empty_store (0, 0) (0, 2) (MaskArr [1, 0, 1]) = Some (Return None, lane13, empty_store)"
    and "worker_find lane13_job = Some None"
    by simp_all
  with h s e g w show ?thesis by blast
qed

text \<open>
  Outside that precondition the test of \<^verbatim>\<open>cameFrom[goalIdx]\<close> reads past the array and
  finds \<^verbatim>\<open>undefined\<close>, not \<open>-1\<close>. With the goal index \<open>-1\<close> the walk back is
  empty, and a call that leaves its loop returns the empty path; with any other index
  outside the arrays the walk back never ends, and no call returns. The worker does the
  same. On the 2 x 2 grid the goal (0, -1) is of the first kind and the goal (5, 5), at
  which the frontier of either engine empties, of the second.
\<close>

lemma goal_index_minus_one_returns_empty:
  assumes miss: "cache a (cacheKey start goal (grid a)) = None"
      and size: "0 \<le> rows (grid a) * cols (grid a)"
      and g: "idx a goal = -1"
      and loop: "search_loop a (passablePredicate a m) goal (init_search a start goal) = Some s"
  shows "returned_path (findPath a st start goal m) = Some (Some [])"
proof -
  have 1: "arr_get (cameFrom s) (idx a goal) \<noteq> Some (-1)" by (simp add: g arr_get_def)
  have 2: "reconstruct (cameFrom s) (cols (grid a)) (Some (idx a goal)) [] = Some []"
    by (subst reconstruct.simps) (simp add: g)
  obtain path st1 where np: "new_path st [] = (path, st1)" by (cases "new_path st []")
  obtain copy st2 where sl: "slice st1 path = (copy, st2)" by (cases "slice st1 path")
  note p1 = new_path_spec[OF np]
  from slice_path_at[OF sl p1(2)] p1(1) have v: "path_at st2 path = []" by simp
  have "findPath a st start goal m =
          Some (Return (Some path), a\<lparr>cache := (cache a)(cacheKey start goal (grid a) \<mapsto> copy)\<rparr>, st2)"
    using miss size loop 1 2 np sl by (simp add: findPath_def Let_def)
  then show ?thesis using v by (simp add: returned_path_def)
qed

lemma goal_index_outside_never_returns:
  assumes miss: "cache a (cacheKey start goal (grid a)) = None"
      and size: "0 \<le> rows (grid a) * cols (grid a)"
      and g: "idx a goal < -1 \<or> rows (grid a) * cols (grid a) \<le> idx a goal"
  shows "findPath a st start goal m = None"
proof (cases "search_loop a (passablePredicate a m) goal (init_search a start goal)")
  case None
  then show ?thesis using miss size by (simp add: findPath_def Let_def)
next
  case (Some s)
  from search_loop_length[OF Some] g size have 1: "arr_get (cameFrom s) (idx a goal) = None"
    by (auto simp: arr_get_def)
  have m1: "idx a goal \<noteq> -1" using g size by auto
  have 2: "reconstruct (cameFrom s) (cols (grid a)) (Some (idx a goal)) [] = None"
    by (subst reconstruct.simps, simp add: m1 1) (subst reconstruct.simps, simp)
  show ?thesis using miss size Some 1 2 by (simp add: findPath_def Let_def)
qed

lemma worker_goal_minus_one_returns_empty:
  assumes size: "0 \<le> job_rows msg * job_cols msg"
      and g: "goalIdx msg = -1"
      and loop: "worker_loop msg (init_worker msg) = Some (b, s)"
  shows "worker_find msg = Some (Some [])"
proof -
  have 1: "arr_get (came s) (-1) \<noteq> Some (-1)" by (simp add: arr_get_def)
  have 2: "worker_reconstruct (came s) (job_cols msg) (Some (-1)) [] = Some []"
    by (subst worker_reconstruct.simps) simp
  show ?thesis using size loop 1 2 g by (simp add: worker_find_def Let_def goalIdx_def)
qed

lemma worker_goal_outside_never_returns:
  assumes size: "0 \<le> job_rows msg * job_cols msg"
      and g: "goalIdx msg < -1 \<or> job_rows msg * job_cols msg \<le> goalIdx msg"
  shows "worker_find msg = None"
proof (cases "worker_loop msg (init_worker msg)")
  case None
  then show ?thesis by (simp add: worker_find_def Let_def)
next
  case (Some y)
  obtain b s where y: "y = (b, s)" by (cases y)
  from worker_loop_length[OF Some[unfolded y]] g size have 1: "arr_get (came s) (goalIdx msg) = None"
    by (auto simp: arr_get_def)
  have m1: "goalIdx msg \<noteq> -1" using g size by auto
  have 2: "worker_reconstruct (came s) (job_cols msg) (Some (goalIdx msg)) [] = None"
    by (subst worker_reconstruct.simps, simp add: m1 1) (subst worker_reconstruct.simps, simp)
  show ?thesis using size Some y 1 2 by (simp add: worker_find_def Let_def goalIdx_def)
qed

lemma goal_outside_grid_examples:
  "returned_path (findPath town22 empty_store (0, 0) (0, -1) NoMask) = Some (Some [])
   \<and> map_option openSet (search_loop town22 (passablePredicate town22 NoMask) (5, 5)
                         (init_search town22 (0, 0) (5, 5))) = Some []
   \<and> findPath town22 empty_store (0, 0) (5, 5) NoMask = None
   \<and> map_option fst (worker_loop far_goal_job (init_worker far_goal_job)) = Some False
   \<and> worker_find far_goal_job = None"
  by (simp add: run_defs worker_defs far_goal_job_def split del: if_split)

subsection \<open>The shape of a computed path\<close>

lemma getMoveCost_pos: "0 < getMoveCost a r1 c1 r2 c2"
  by (simp add: getMoveCost_def Let_def)

lemma neighbors_in_bounds: "q \<in> set (neighbors a r c) \<Longrightarrow> in_bounds a q"
  by (auto simp: neighbors_def in_bounds_def)

lemma decode_idx: "in_bounds a q \<Longrightarrow> decode a (idx a q) = q"
  by (cases q) (simp add: decode_def idx_def in_bounds_def)


lemma js_rem_nonneg: "0 \<le> k \<Longrightarrow> 0 < n \<Longrightarrow> js_rem k n = k mod n"
  by (cases "k = 0") (simp_all add: js_rem_def)

lemma visited_mono:
  "0 \<le> k \<Longrightarrow> visited S cf k \<Longrightarrow> v \<noteq> -1 \<Longrightarrow> visited S (arr_set cf i v) k"
  by (auto simp: visited_def nth_arr_set)

lemma num_less_add_pos:
  assumes "num_less (num_add g x) h" "nonneg g" "0 < x"
  obtains y where "num_add g x = Num y" "0 < y"
  using assms by (cases g; cases h) (auto simp: nonneg_def)

lemma relax_inv:
  assumes c0: "0 < cols (grid a)"
      and S: "0 \<le> S" "S < rows (grid a) * cols (grid a)"
      and inv: "search_inv a P S t"
      and cur: "0 \<le> cur" "cur < rows (grid a) * cols (grid a)" "visited S (cameFrom t) cur"
      and nb: "nb \<in> set (neighbors a (fst (decode a cur)) (snd (decode a cur)))"
  shows "search_inv a P S (relax a P goal cur nb t) \<and> visited S (cameFrom (relax a P goal cur nb t)) cur"
proof -
  let ?N = "rows (grid a) * cols (grid a)"
  let ?ni = "idx a nb"
  let ?mc = "getMoveCost a (cur div cols (grid a)) (js_rem cur (cols (grid a))) (fst nb) (snd nb)"
  let ?cost = "num_add (f64 (gCost t) cur) ?mc"
  let ?cf = "arr_set (cameFrom t) ?ni cur"
  show ?thesis
  proof (cases "P nb \<and> num_less ?cost (f64 (gCost t) ?ni)")
    case False
    then have "relax a P goal cur nb t = t" by (auto simp: relax_def Let_def)
    with inv cur show ?thesis by simp
  next
    case True
    from inv have len: "length (gCost t) = nat ?N" "length (cameFrom t) = nat ?N"
      and g0: "gCost t ! nat S = Num 0" and gn: "\<forall>v \<in> set (gCost t). nonneg v"
      and cS: "cameFrom t ! nat S = -1"
      and links: "\<forall>i. 0 \<le> i \<and> i < ?N \<and> cameFrom t ! nat i \<noteq> -1 \<longrightarrow> link a P S (cameFrom t) i"
      and opn: "\<forall>k \<in> set (openSet t). 0 \<le> k \<and> k < ?N \<and> visited S (cameFrom t) k"
      by (simp_all add: search_inv_def)
    have nbb: "in_bounds a nb" using nb by (rule neighbors_in_bounds)
    have ni: "0 \<le> ?ni" "?ni < ?N" using idx_in_range[OF nbb] by simp_all
    have dec: "decode a ?ni = nb" using nbb by (rule decode_idx)
    have gcur: "f64 (gCost t) cur = gCost t ! nat cur"
      using cur len by (simp add: f64_def arr_get_def)
    have "nonneg (f64 (gCost t) cur)" using gn cur len by (simp add: gcur)
    with True obtain x where x: "?cost = Num x" "0 < x"
      using num_less_add_pos[of "f64 (gCost t) cur" ?mc "f64 (gCost t) ?ni"] getMoveCost_pos by blast
    have niS: "?ni \<noteq> S"
    proof
      assume "?ni = S"
      then have "f64 (gCost t) ?ni = Num 0" using S len g0 by (simp add: f64_def arr_get_def)
      with True x show False by simp
    qed
    have r: "relax a P goal cur nb t =
        t\<lparr>cameFrom := ?cf, gCost := arr_set (gCost t) ?ni ?cost,
          fCost := arr_set (fCost t) ?ni (num_add ?cost (heuristic a nb goal)),
          openSet := set_add ?ni (openSet t)\<rparr>"
      using True by (simp add: relax_def Let_def)
    have cm1: "cur \<noteq> -1" using cur by simp
    have vis: "\<And>k. 0 \<le> k \<Longrightarrow> visited S (cameFrom t) k \<Longrightarrow> visited S ?cf k"
      using cm1 by (simp add: visited_mono)
    have nth: "\<And>i. 0 \<le> i \<Longrightarrow> ?cf ! nat i = (if ?ni = i then cur else cameFrom t ! nat i)"
      using ni len by (simp add: nth_arr_set)
    let ?t' = "relax a P goal cur nb t"
    have rc: "cameFrom ?t' = ?cf" "gCost ?t' = arr_set (gCost t) ?ni ?cost"
      "openSet ?t' = set_add ?ni (openSet t)"
      by (simp_all add: r)
    have L1: "length (gCost ?t') = nat ?N" using len by (simp add: rc)
    have L2: "length (cameFrom ?t') = nat ?N" using len by (simp add: rc)
    have 1: "gCost ?t' ! nat S = Num 0"
      using niS S g0 by (simp add: rc nth_arr_set)
    have 2: "\<forall>v \<in> set (gCost ?t'). nonneg v"
    proof
      fix v assume "v \<in> set (gCost ?t')"
      then have "v = ?cost \<or> v \<in> set (gCost t)"
        using set_arr_set[of "gCost t" ?ni ?cost] by (auto simp: rc)
      then show "nonneg v" using gn x by (auto simp: nonneg_def)
    qed
    have 3: "cameFrom ?t' ! nat S = -1"
      using niS S cS by (simp add: rc nth)
    have 4: "\<forall>i. 0 \<le> i \<and> i < ?N \<and> cameFrom ?t' ! nat i \<noteq> -1 \<longrightarrow> link a P S (cameFrom ?t') i"
      unfolding rc
    proof (intro allI impI)
      fix i assume i: "0 \<le> i \<and> i < ?N \<and> ?cf ! nat i \<noteq> -1"
      show "link a P S ?cf i"
      proof (cases "i = ?ni")
        case True
        then have e: "?cf ! nat i = cur" using i by (simp add: nth)
        have "decode a i \<in> set (neighbors a (fst (decode a cur)) (snd (decode a cur)))"
          using nb dec True by simp
        moreover have "P (decode a i)" using \<open>P nb \<and> _\<close> dec True by simp
        ultimately show ?thesis
          unfolding link_def e using cur vis[OF cur(1) cur(3)] by simp
      next
        case False
        then have e: "?cf ! nat i = cameFrom t ! nat i" using i by (simp add: nth)
        with i links have l: "link a P S (cameFrom t) i" by simp
        then have "visited S ?cf (cameFrom t ! nat i)" using vis by (simp add: link_def)
        with l show ?thesis unfolding link_def e by simp
      qed
    qed
    have 5: "\<forall>k \<in> set (openSet ?t'). 0 \<le> k \<and> k < ?N \<and> visited S (cameFrom ?t') k"
      unfolding rc
    proof
      fix k assume "k \<in> set (set_add ?ni (openSet t))"
      then have "k = ?ni \<or> k \<in> set (openSet t)" by simp
      then show "0 \<le> k \<and> k < ?N \<and> visited S ?cf k"
      proof
        assume "k = ?ni"
        then show ?thesis using ni cm1 by (simp add: visited_def nth)
      next
        assume "k \<in> set (openSet t)"
        with opn have o: "0 \<le> k" "k < ?N" "visited S (cameFrom t) k" by auto
        from vis[OF o(1) o(3)] o show ?thesis by simp
      qed
    qed
    have "search_inv a P S ?t'"
      unfolding search_inv_def
      by (intro conjI) (rule L1, rule L2, rule 1, rule 2, rule 3, rule 4, rule 5)
    moreover have "visited S (cameFrom ?t') cur"
      using vis[OF cur(1) cur(3)] by (simp add: rc)
    ultimately show ?thesis by simp
  qed
qed

lemma relax_no_current: "relax a P goal (-1) nb t = t"
  by (simp add: relax_def Let_def f64_def arr_get_def)

lemma step_inv:
  assumes c0: "0 < cols (grid a)"
      and S: "0 \<le> S" "S < rows (grid a) * cols (grid a)"
      and inv: "search_inv a P S t"
  shows "search_inv a P S
           (expand a P goal (lowest (fCost t) (openSet t))
              (t\<lparr>openSet := removeAll (lowest (fCost t) (openSet t)) (openSet t)\<rparr>))"
proof -
  let ?cur = "lowest (fCost t) (openSet t)"
  let ?t1 = "t\<lparr>openSet := removeAll ?cur (openSet t)\<rparr>"
  have i1: "search_inv a P S ?t1" using inv by (simp add: search_inv_def)
  show ?thesis
  proof (cases "?cur \<in> set (openSet t)")
    case False
    then have "?cur = -1" using lowest_mem[of "fCost t" "openSet t"] by simp
    then have "expand a P goal ?cur ?t1 = ?t1"
      by (simp add: expand_def fold_id relax_no_current)
    with i1 show ?thesis by simp
  next
    case True
    with inv have cur: "0 \<le> ?cur" "?cur < rows (grid a) * cols (grid a)"
      "visited S (cameFrom t) ?cur"
      by (auto simp: search_inv_def)
    have nbs: "neighbors a (?cur div cols (grid a)) (js_rem ?cur (cols (grid a)))
               = neighbors a (fst (decode a ?cur)) (snd (decode a ?cur))"
      using cur(1) c0 by (simp add: decode_def js_rem_nonneg)
    let ?I = "\<lambda>u. search_inv a P S u \<and> visited S (cameFrom u) ?cur"
    have "?I (fold (relax a P goal ?cur) (neighbors a (fst (decode a ?cur)) (snd (decode a ?cur))) ?t1)"
    proof (rule fold_invariant[where I = ?I])
      show "?I ?t1" using i1 cur(3) by simp
    next
      fix nb u
      assume nb: "nb \<in> set (neighbors a (fst (decode a ?cur)) (snd (decode a ?cur)))" and u: "?I u"
      from u have u1: "search_inv a P S u" and u2: "visited S (cameFrom u) ?cur" by simp_all
      from relax_inv[OF c0 S u1 cur(1) cur(2) u2 nb]
      show "?I (relax a P goal ?cur nb u)" .
    qed
    then show ?thesis by (simp add: expand_def nbs)
  qed
qed

lemma init_inv:
  assumes S: "0 \<le> idx a start" "idx a start < rows (grid a) * cols (grid a)"
  shows "search_inv a P (idx a start) (init_search a start goal)"
  using S by (auto simp: search_inv_def init_search_def Let_def nth_arr_set nonneg_def visited_def
      dest!: subsetD[OF set_arr_set])

lemma search_loop_inv:
  assumes c0: "0 < cols (grid a)"
      and S: "0 \<le> idx a start" "idx a start < rows (grid a) * cols (grid a)"
      and run: "search_loop a P goal (init_search a start goal) = Some s"
  shows "search_inv a P (idx a start) s"
  by (rule search_loop_invariant[OF run, where I = "search_inv a P (idx a start)"])
     (use init_inv[OF S] step_inv[OF c0 S] in auto)

lemma neighbors_adjacent: "q \<in> set (neighbors a (fst p) (snd p)) \<Longrightarrow> adjacent p q"
  by (cases p) (auto simp: neighbors_def adjacent_def dirs8_def dirs4_def split: if_splits)

lemma walk_successively: "walk a ps \<Longrightarrow> successively adjacent ps"
  by (induction a ps rule: walk.induct) (auto simp: neighbors_adjacent)

lemma walk_in_bounds: "walk a (p # ps) \<Longrightarrow> \<forall>q \<in> set ps. in_bounds a q"
  by (induction ps arbitrary: p) (auto simp: neighbors_in_bounds)

lemma reconstruct_valid:
  assumes c0: "0 < cols (grid a)"
      and cS: "cf ! nat S = -1"
      and len: "length cf = nat (rows (grid a) * cols (grid a))"
      and links: "\<forall>i. 0 \<le> i \<and> i < rows (grid a) * cols (grid a) \<and> cf ! nat i \<noteq> -1 \<longrightarrow> link a P S cf i"
      and run: "reconstruct cf (cols (grid a)) (Some k) acc = Some path"
      and pre: "0 \<le> k \<and> k < rows (grid a) * cols (grid a) \<and> visited S cf k \<and>
                walk a (decode a k # acc) \<and> (\<forall>p \<in> set acc. P p)"
  shows "path \<noteq> [] \<and> hd path = decode a S \<and> walk a path \<and> (\<forall>p \<in> set (tl path). P p) \<and>
         last path = last (decode a k # acc)"
proof -
  let ?N = "rows (grid a) * cols (grid a)"
  let ?pre = "\<lambda>k acc. 0 \<le> k \<and> k < ?N \<and> visited S cf k \<and> walk a (decode a k # acc) \<and> (\<forall>p \<in> set acc. P p)"
  let ?post = "\<lambda>k acc path. path \<noteq> [] \<and> hd path = decode a S \<and> walk a path \<and>
                 (\<forall>p \<in> set (tl path). P p) \<and> last path = last (decode a k # acc)"
  let ?Q = "\<lambda>cf0 nc0 cur acc path. cf0 = cf \<longrightarrow> nc0 = cols (grid a) \<longrightarrow>
              ((cur = Some (-1) \<longrightarrow> path = acc) \<and> (\<forall>k. cur = Some k \<and> ?pre k acc \<longrightarrow> ?post k acc path))"
  have "?Q cf (cols (grid a)) (Some k) acc path"
  proof (rule reconstruct.raw_induct[where P = ?Q and came = cf and ncols = "cols (grid a)"
          and cur = "Some k" and path = acc and y = path])
    show "reconstruct cf (cols (grid a)) (Some k) acc = Some path" by (rule run)
  next
    fix rc :: "int list \<Rightarrow> int \<Rightarrow> int option \<Rightarrow> cell list \<Rightarrow> cell list option"
    fix cf0 nc0 cur acc0 y
    assume ih: "\<And>cf1 nc1 cur1 acc1 y1. rc cf1 nc1 cur1 acc1 = Some y1 \<Longrightarrow> ?Q cf1 nc1 cur1 acc1 y1"
      and body: "(case cur of None \<Rightarrow> None
                  | Some k \<Rightarrow> if k = -1 then Some acc0
                              else rc cf0 nc0 (arr_get cf0 k) ((k div nc0, js_rem k nc0) # acc0)) = Some y"
    show "?Q cf0 nc0 cur acc0 y"
    proof (intro impI, rule conjI, rule impI)
      assume "cf0 = cf" "nc0 = cols (grid a)" "cur = Some (-1)"
      with body show "y = acc0" by simp
    next
      assume e: "cf0 = cf" "nc0 = cols (grid a)"
      show "\<forall>k. cur = Some k \<and> ?pre k acc0 \<longrightarrow> ?post k acc0 y"
      proof (rule allI, rule impI)
      fix j
      assume j: "cur = Some j \<and> ?pre j acc0"
      then have j0: "0 \<le> j" "j < ?N" "visited S cf j" "walk a (decode a j # acc0)" "\<forall>p \<in> set acc0. P p"
        by simp_all
      have dj: "(j div nc0, js_rem j nc0) = decode a j"
        using j0(1) c0 e by (simp add: decode_def js_rem_nonneg)
      have gj: "arr_get cf j = Some (cf ! nat j)" using j0 len by (simp add: arr_get_def)
      from body j j0(1) e dj gj have rec: "rc cf (cols (grid a)) (Some (cf ! nat j)) (decode a j # acc0) = Some y"
        by simp
      note q = ih[OF rec, rule_format, OF refl refl]
      show "?post j acc0 y"
      proof (cases "cf ! nat j = -1")
        case True
        with q have y: "y = decode a j # acc0" by simp
        from True j0(3) have "j = S" by (simp add: visited_def)
        with y j0 show ?thesis by simp
      next
        case False
        with links j0 have l: "link a P S cf j" by simp
        then have p: "0 \<le> cf ! nat j" "cf ! nat j < ?N" "visited S cf (cf ! nat j)"
          "decode a j \<in> set (neighbors a (fst (decode a (cf ! nat j))) (snd (decode a (cf ! nat j))))"
          "P (decode a j)"
          by (simp_all add: link_def)
        have "?pre (cf ! nat j) (decode a j # acc0)" using p j0 by simp
        with q have "?post (cf ! nat j) (decode a j # acc0) y" by blast
        then show ?thesis by simp
      qed
      qed
    qed
  qed
  with pre show ?thesis by blast
qed

lemma findPath_returns_reconstruction:
  assumes miss: "cache a (cacheKey start goal (grid a)) = None"
      and ret: "findPath a st start goal m = Some (Return (Some path), a', st')"
  shows "\<exists>s. search_loop a (passablePredicate a m) goal (init_search a start goal) = Some s \<and>
             arr_get (cameFrom s) (idx a goal) \<noteq> Some (-1) \<and>
             reconstruct (cameFrom s) (cols (grid a)) (Some (idx a goal)) [] = Some (path_at st' path)"
proof -
  from findPath_computed[OF miss ret] obtain s ps st1 where
    s: "search_loop a (passablePredicate a m) goal (init_search a start goal) = Some s"
    and c: "arr_get (cameFrom s) (idx a goal) \<noteq> Some (-1)"
    and ps: "reconstruct (cameFrom s) (cols (grid a)) (Some (idx a goal)) [] = Some ps"
    and np: "new_path st ps = (path, st1)"
    and fin: "if length ps < 512
     then \<exists>copy. slice st1 path = (copy, st') \<and>
            a' = a\<lparr>cache := (cache a)(cacheKey start goal (grid a) \<mapsto> copy)\<rparr>
     else st' = st1 \<and> a' = a"
    by blast
  note p1 = new_path_spec[OF np]
  have "path_at st' path = ps"
  proof (cases "length ps < 512")
    case True
    with fin obtain copy where "slice st1 path = (copy, st')" by auto
    from slice_path_at(2)[OF this p1(2)] p1(1) show ?thesis by simp
  next
    case False
    with fin p1(1) show ?thesis by simp
  qed
  with s c ps show ?thesis by blast
qed

lemma computed_path_valid:
  assumes c0: "0 < cols (grid a)"
      and S: "0 \<le> idx a start" "idx a start < rows (grid a) * cols (grid a)"
      and G: "0 \<le> idx a goal" "idx a goal < rows (grid a) * cols (grid a)"
      and miss: "cache a (cacheKey start goal (grid a)) = None"
      and ret: "findPath a st start goal m = Some (Return (Some path), a', st')"
  shows "path_at st' path \<noteq> [] \<and> hd (path_at st' path) = decode a (idx a start) \<and>
         last (path_at st' path) = decode a (idx a goal) \<and> walk a (path_at st' path) \<and>
         (\<forall>p \<in> set (tl (path_at st' path)). passablePredicate a m p)"
proof -
  let ?P = "passablePredicate a m"
  from findPath_returns_reconstruction[OF miss ret] obtain s where
    s: "search_loop a ?P goal (init_search a start goal) = Some s"
    and c: "arr_get (cameFrom s) (idx a goal) \<noteq> Some (-1)"
    and ps: "reconstruct (cameFrom s) (cols (grid a)) (Some (idx a goal)) [] = Some (path_at st' path)"
    by blast
  from search_loop_inv[OF c0 S s] have inv: "search_inv a ?P (idx a start) s" .
  then have cS: "cameFrom s ! nat (idx a start) = -1"
    and len: "length (cameFrom s) = nat (rows (grid a) * cols (grid a))"
    and links: "\<forall>i. 0 \<le> i \<and> i < rows (grid a) * cols (grid a) \<and> cameFrom s ! nat i \<noteq> -1
                  \<longrightarrow> link a ?P (idx a start) (cameFrom s) i"
    by (simp_all add: search_inv_def)
  from c G len have "cameFrom s ! nat (idx a goal) \<noteq> -1" by (simp add: arr_get_def)
  then have "visited (idx a start) (cameFrom s) (idx a goal)" by (simp add: visited_def)
  with G have pre: "0 \<le> idx a goal \<and> idx a goal < rows (grid a) * cols (grid a) \<and>
      visited (idx a start) (cameFrom s) (idx a goal) \<and> walk a (decode a (idx a goal) # []) \<and>
      (\<forall>p \<in> set []. ?P p)"
    by simp
  from reconstruct_valid[OF c0 cS len links ps pre] show ?thesis by simp
qed

text \<open>
  C10 (as amended). For every call with start and goal inside the grid and no cache entry
  for its key, a path that \<^verbatim>\<open>findPath\<close> returns is not empty, begins at the start, ends
  at the goal, lies inside the grid, moves between distinct cells at most one row and one
  column apart, and every cell after the first satisfies the mask of the call.
\<close>

theorem computed_path_well_formed:
  assumes sb: "in_bounds a start" and gb: "in_bounds a goal"
      and miss: "cache a (cacheKey start goal (grid a)) = None"
      and ret: "findPath a st start goal m = Some (Return (Some path), a', st')"
  shows "path_at st' path \<noteq> [] \<and> hd (path_at st' path) = start \<and> last (path_at st' path) = goal \<and>
         (\<forall>p \<in> set (path_at st' path). in_bounds a p) \<and>
         successively adjacent (path_at st' path) \<and>
         (\<forall>p \<in> set (tl (path_at st' path)). passablePredicate a m p)"
proof -
  let ?ps = "path_at st' path"
  from sb have c0: "0 < cols (grid a)" by (simp add: in_bounds_def)
  from computed_path_valid[OF c0 idx_in_range[OF sb] idx_in_range[OF gb] miss ret]
  have v: "?ps \<noteq> []" "hd ?ps = decode a (idx a start)" "last ?ps = decode a (idx a goal)"
    "walk a ?ps" "\<forall>p \<in> set (tl ?ps). passablePredicate a m p"
    by simp_all
  have h: "hd ?ps = start" using v(2) decode_idx[OF sb] by simp
  have l: "last ?ps = goal" using v(3) decode_idx[OF gb] by simp
  obtain p qs where e: "?ps = p # qs" using v(1) by (cases ?ps) auto
  have "\<forall>q \<in> set qs. in_bounds a q" using walk_in_bounds[of a p qs] v(4) e by simp
  moreover have "in_bounds a p" using h e sb by simp
  ultimately have b: "\<forall>q \<in> set ?ps. in_bounds a q" using e by simp
  show ?thesis using v(1) h l b walk_successively[OF v(4)] v(5) by simp
qed

theorem computed_path_well_formed_witness:
  "in_bounds town22 (0, 0) \<and> in_bounds town22 (1, 1)
   \<and> cache town22 (cacheKey (0, 0) (1, 1) (grid town22)) = None
   \<and> (\<exists>path a' st'. findPath town22 empty_store (0, 0) (1, 1) NoMask = Some (Return (Some path), a', st')
        \<and> path_at st' path = [(0, 0), (1, 1)]
        \<and> hd (path_at st' path) = (0, 0) \<and> last (path_at st' path) = (1, 1)
        \<and> successively adjacent (path_at st' path))"
proof -
  have sb: "in_bounds town22 (0, 0)" and gb: "in_bounds town22 (1, 1)"
    by (simp_all add: in_bounds_def town22_def)
  have miss: "cache town22 (cacheKey (0, 0) (1, 1) (grid town22)) = None"
    by (simp add: town22_def)
  have "case findPath town22 empty_store (0, 0) (1, 1) NoMask of
          Some (Return (Some path), a', st') \<Rightarrow> path_at st' path = [(0, 0), (1, 1)] | _ \<Rightarrow> False"
    by (simp add: run_defs split del: if_split)
  then obtain out a' st' where
    r0: "findPath town22 empty_store (0, 0) (1, 1) NoMask = Some (out, a', st')"
    and c0: "case out of Return (Some path) \<Rightarrow> path_at st' path = [(0, 0), (1, 1)] | _ \<Rightarrow> False"
    by (cases "findPath town22 empty_store (0, 0) (1, 1) NoMask") auto
  from c0 obtain path where o: "out = Return (Some path)"
    and p: "path_at st' path = [(0, 0), (1, 1)]"
    by (cases out) (auto split: option.splits)
  note ret = r0[unfolded o]
  from computed_path_well_formed[OF sb gb miss ret]
  have "hd (path_at st' path) = (0, 0) \<and> last (path_at st' path) = (1, 1)
        \<and> successively adjacent (path_at st' path)"
    by simp
  with sb gb miss ret p show ?thesis by blast
qed

text \<open>
  The claim as stated, for every path returned, fails in two ways. A cache hit returns
  the path stored under the key (start, goal, dimensions) whatever the mask of the call:
  on the 1 x 3 grid the path computed without a mask is returned to a call whose mask
  closes the middle cell. And a goal outside the grid whose index is inside it is
  replaced by the cell of that index: on the 2 x 2 grid the path to (0, 2) ends at (1, 0).
\<close>

theorem cached_or_aliased_path_counterexample:
  "returned_path (then_findPath (findPath lane13 empty_store (0, 0) (0, 2) NoMask)
                    (0, 0) (0, 2) (MaskArr [1, 0, 1]))
     = Some (Some [(0, 0), (0, 1), (0, 2)])
   \<and> \<not> passablePredicate lane13 (MaskArr [1, 0, 1]) (0, 1)
   \<and> returned_path (findPath town22 empty_store (0, 0) (0, 2) NoMask) = Some (Some [(0, 0), (1, 0)])"
  by (simp add: run_defs split del: if_split)

subsection \<open>Cells outside the grid\<close>









subsection \<open>Cache hits and the caller\<close>

lemma findPath_hit:
  assumes "cache a (cacheKey start goal (grid a)) = Some c"
  shows "findPath a st start goal m =
           Some (Return (Some (nextRef st)), a,
                 st\<lparr>arrObj := (arrObj st)(nextRef st := arrObj st c), nextRef := Suc (nextRef st)\<rparr>)"
  using assms by (simp add: findPath_def Let_def slice_def new_array_def)

lemma client_cached:
  assumes "cache a (cacheKey start goal (grid a)) = Some c"
      and "c < nextRef st" and "c \<notin> set held" and "path_at st c = ps"
  shows "client start goal acts a st held = Some (replicate (calls acts) (Some ps))"
  using assms
proof (induction acts arbitrary: st held)
  case Nil
  then show ?case by simp
next
  case (Cons act acts)
  show ?case
  proof (cases act)
    case (MutateArray i refs)
    let ?st = "if i < length held then mutate_array st (held ! i) refs else st"
    have "c < nextRef ?st" using Cons.prems(2) by (simp add: mutate_array_def)
    moreover have "path_at ?st c = ps"
      using Cons.prems(3,4) by (auto simp: mutate_array_def path_at_def)
    ultimately have "client start goal acts a ?st held = Some (replicate (calls acts) (Some ps))"
      using Cons.IH[OF Cons.prems(1) _ Cons.prems(3)] by simp
    then show ?thesis using MutateArray by simp
  next
    case (Call m)
    let ?st1 = "st\<lparr>arrObj := (arrObj st)(nextRef st := arrObj st c), nextRef := Suc (nextRef st)\<rparr>"
    have hit: "findPath a st start goal m = Some (Return (Some (nextRef st)), a, ?st1)"
      using Cons.prems(1) by (rule findPath_hit)
    have p1: "path_at ?st1 (nextRef st) = ps" using Cons.prems(4) by (simp add: path_at_def)
    have p2: "path_at ?st1 c = ps" using Cons.prems(2,4) by (simp add: path_at_def)
    have "c < nextRef ?st1" using Cons.prems(2) by simp
    moreover have "c \<notin> set (held @ [nextRef st])" using Cons.prems(2,3) by simp
    ultimately have "client start goal acts a ?st1 (held @ [nextRef st])
        = Some (replicate (calls acts) (Some ps))"
      using Cons.IH[OF Cons.prems(1) _ _ p2] by simp
    then show ?thesis using Call hit p1 by simp
  qed
qed

text \<open>
  C3 (as amended). After a call that computed a path of fewer than 512 cells, whatever the
  caller does to the arrays it has been returned (the first path and every copy handed out
  since), every later call with the same start, goal and grid is served from the cache
  with the coordinates of the path first computed. (The coordinate objects themselves are
  shared between the cache entry and every array returned.)
\<close>

theorem cache_hits_survive_array_mutation:
  assumes miss: "cache a (cacheKey start goal (grid a)) = None"
      and first: "findPath a st start goal m = Some (Return (Some path), a1, st1)"
      and short: "length (path_at st1 path) < 512"
  shows "client start goal acts a1 st1 [path] = Some (replicate (calls acts) (Some (path_at st1 path)))"
proof -
  from findPath_computed[OF miss first] obtain s ps st0 where
    np: "new_path st ps = (path, st0)"
    and fin: "if length ps < 512
     then \<exists>copy. slice st0 path = (copy, st1) \<and>
            a1 = a\<lparr>cache := (cache a)(cacheKey start goal (grid a) \<mapsto> copy)\<rparr>
     else st1 = st0 \<and> a1 = a"
    by blast
  note p0 = new_path_spec[OF np]
  have "length ps < 512"
  proof (rule ccontr)
    assume "\<not> length ps < 512"
    with fin p0(1) short show False by simp
  qed
  with fin obtain copy where sl: "slice st0 path = (copy, st1)"
    and a1: "a1 = a\<lparr>cache := (cache a)(cacheKey start goal (grid a) \<mapsto> copy)\<rparr>"
    by auto
  note v = slice_path_at[OF sl p0(2)] and sp = slice_spec[OF sl]
  have c: "cache a1 (cacheKey start goal (grid a1)) = Some copy" by (simp add: a1)
  have "copy < nextRef st1" using sp by simp
  moreover have "copy \<notin> set [path]" using v(3) by simp
  moreover have "path_at st1 copy = path_at st1 path" using v by simp
  ultimately show ?thesis using client_cached[OF c] by simp
qed

lemmas client_defs = mutate_array_def mutate_cell_def then_set_cell_def

theorem cache_hits_survive_array_mutation_witness:
  "cache town22 (cacheKey (0, 0) (1, 1) (grid town22)) = None
   \<and> (\<exists>path a1 st1. findPath town22 empty_store (0, 0) (1, 1) NoMask = Some (Return (Some path), a1, st1)
        \<and> path_at st1 path = [(0, 0), (1, 1)] \<and> length (path_at st1 path) < 512
        \<and> client (0, 0) (1, 1) [MutateArray 0 [], Call NoMask, MutateArray 1 [0, 0, 0], Call NoMask]
             a1 st1 [path]
           = Some [Some [(0, 0), (1, 1)], Some [(0, 0), (1, 1)]])"
proof -
  have miss: "cache town22 (cacheKey (0, 0) (1, 1) (grid town22)) = None"
    by (simp add: town22_def)
  have "case findPath town22 empty_store (0, 0) (1, 1) NoMask of
          Some (Return (Some path), a', st') \<Rightarrow> path_at st' path = [(0, 0), (1, 1)] | _ \<Rightarrow> False"
    by (simp add: run_defs split del: if_split)
  then obtain out a1 st1 where
    r0: "findPath town22 empty_store (0, 0) (1, 1) NoMask = Some (out, a1, st1)"
    and c0: "case out of Return (Some path) \<Rightarrow> path_at st1 path = [(0, 0), (1, 1)] | _ \<Rightarrow> False"
    by (cases "findPath town22 empty_store (0, 0) (1, 1) NoMask") auto
  from c0 obtain path where o: "out = Return (Some path)"
    and p: "path_at st1 path = [(0, 0), (1, 1)]"
    by (cases out) (auto split: option.splits)
  note ret = r0[unfolded o]
  have short: "length (path_at st1 path) < 512" by (simp add: p)
  have "client (0, 0) (1, 1) [MutateArray 0 [], Call NoMask, MutateArray 1 [0, 0, 0], Call NoMask]
             a1 st1 [path] = Some [Some [(0, 0), (1, 1)], Some [(0, 0), (1, 1)]]"
    using cache_hits_survive_array_mutation[OF miss ret short,
        of "[MutateArray 0 [], Call NoMask, MutateArray 1 [0, 0, 0], Call NoMask]"] p
    by (simp add: numeral_2_eq_2)
  with miss ret p short show ?thesis by blast
qed

text \<open>
  The claim as stated includes changes to the coordinate objects, and fails for them:
  \<^verbatim>\<open>slice\<close> copies the array, not its elements. After \<^verbatim>\<open>path[0].r = 7\<close> the next
  call, a cache hit, returns a path that begins at (7, 0).
\<close>

theorem cell_mutation_reaches_cache_counterexample:
  "returned_path (findPath town22 empty_store (0, 0) (1, 1) NoMask) = Some (Some [(0, 0), (1, 1)])
   \<and> returned_path
        (then_findPath (then_set_cell 0 (7, 0) (findPath town22 empty_store (0, 0) (1, 1) NoMask))
           (0, 0) (1, 1) NoMask)
       = Some (Some [(7, 0), (1, 1)])"
  by (simp add: run_defs client_defs split del: if_split)

subsection \<open>The two cost models\<close>







subsection \<open>The heuristics\<close>

lemma real_of_int_step: "(x::int) \<le> 1 + y \<Longrightarrow> real_of_int x \<le> 1 + real_of_int y"
  by linarith

lemma heuristic_step:
  assumes "q \<in> set (neighbors a (fst p) (snd p))"
  shows "heuristic a p z \<le> 1 + heuristic a q z"
proof (cases "diagonal a")
  case True
  from neighbors_adjacent[OF assms] have "\<bar>fst p - fst q\<bar> \<le> 1 \<and> \<bar>snd p - snd q\<bar> \<le> 1"
    by (simp add: adjacent_def)
  then have "max \<bar>fst p - fst z\<bar> \<bar>snd p - snd z\<bar> \<le> 1 + max \<bar>fst q - fst z\<bar> \<bar>snd q - snd z\<bar>"
    by linarith
  then show ?thesis using True by (simp add: heuristic_def real_of_int_step)
next
  case False
  with assms have "\<bar>fst p - fst q\<bar> + \<bar>snd p - snd q\<bar> \<le> 1"
    by (cases q) (auto simp: neighbors_def dirs4_def split: if_splits)
  then have "\<bar>fst p - fst z\<bar> + \<bar>snd p - snd z\<bar> \<le> 1 + (\<bar>fst q - fst z\<bar> + \<bar>snd q - snd z\<bar>)"
    by linarith
  then have "real_of_int (\<bar>fst p - fst z\<bar> + \<bar>snd p - snd z\<bar>)
      \<le> 1 + real_of_int (\<bar>fst q - fst z\<bar> + \<bar>snd q - snd z\<bar>)"
    by (rule real_of_int_step)
  then show ?thesis using False by (simp add: heuristic_def)
qed

lemma getMoveCost_ge_one:
  assumes "\<not> road_like (destination a r2 c2)"
  shows "1 \<le> getMoveCost a r1 c1 r2 c2"
proof -
  have "1 \<le> spec_base r1 c1 r2 c2" by (simp add: spec_base_def)
  moreover have "1 \<le> spec_multiplier (destination a r2 c2)" using assms by (simp add: spec_multiplier_def)
  ultimately have "1 * 1 \<le> spec_base r1 c1 r2 c2 * spec_multiplier (destination a r2 c2)"
    by (intro mult_mono) simp_all
  then show ?thesis by (simp add: getMoveCost_product)
qed

lemma heuristic_admissible:
  assumes "walk a (p # ps)" and "\<forall>c \<in> set ps. \<not> road_like (destination a (fst c) (snd c))"
  shows "heuristic a p (last (p # ps)) \<le> path_cost a (p # ps)"
  using assms
proof (induction ps arbitrary: p)
  case Nil
  then show ?case by (simp add: heuristic_def)
next
  case (Cons q qs)
  from Cons.prems have nb: "q \<in> set (neighbors a (fst p) (snd p))" and w: "walk a (q # qs)"
    and r: "\<not> road_like (destination a (fst q) (snd q))"
    and rs: "\<forall>c \<in> set qs. \<not> road_like (destination a (fst c) (snd c))"
    by simp_all
  from Cons.IH[OF w rs] have ih: "heuristic a q (last (q # qs)) \<le> path_cost a (q # qs)" .
  have "heuristic a p (last (q # qs)) \<le> 1 + heuristic a q (last (q # qs))"
    using nb by (rule heuristic_step)
  also have "\<dots> \<le> getMoveCost a (fst p) (snd p) (fst q) (snd q) + path_cost a (q # qs)"
    using getMoveCost_ge_one[OF r] ih by (simp add: add_mono)
  finally show ?case by simp
qed

lemma worker_h_step:
  assumes "(fst q - fst p, snd q - snd p) \<in> set dirs8"
  shows "worker_h p z \<le> worker_base (fst q - fst p, snd q - snd p) + worker_h q z"
proof -
  from assms have "\<bar>fst p - fst q\<bar> \<le> 1 \<and> \<bar>snd p - snd q\<bar> \<le> 1" by (auto simp: dirs8_def)
  then have "max \<bar>fst p - fst z\<bar> \<bar>snd p - snd z\<bar> \<le> 1 + max \<bar>fst q - fst z\<bar> \<bar>snd q - snd z\<bar>"
    by linarith
  then have "worker_h p z \<le> 1 + worker_h q z" by (simp add: worker_h_def real_of_int_step)
  moreover have "1 \<le> worker_base (fst q - fst p, snd q - snd p)" by (simp add: worker_base_def)
  ultimately show ?thesis by simp
qed

lemma worker_h_admissible:
  assumes "worker_walk nrows ncols (p # ps)"
  shows "worker_h p (last (p # ps)) \<le> worker_path_cost (p # ps)"
  using assms
proof (induction ps arbitrary: p)
  case Nil
  then show ?case by (simp add: worker_h_def)
next
  case (Cons q qs)
  from Cons.prems have d: "(fst q - fst p, snd q - snd p) \<in> set dirs8"
    and w: "worker_walk nrows ncols (q # qs)" by simp_all
  from worker_h_step[OF d, of "last (q # qs)"] Cons.IH[OF w] show ?case by simp
qed

text \<open>
  C8 (as amended). The heuristic of the main-thread engine, the function \<^verbatim>\<open>h\<close> of the
  worker and the estimate the worker adds to \<^verbatim>\<open>f\<close> are never negative. The heuristic of
  the main-thread engine does not exceed the cost of any walk from \<open>p\<close> to its end that
  enters no road-like cell (so not the optimal cost on a grid without such cells), and
  \<^verbatim>\<open>h\<close> does not exceed the cost of any walk under the worker's cost model.
\<close>

theorem heuristics_nonneg_and_admissible:
  "0 \<le> heuristic a p q \<and> 0 \<le> worker_h p q \<and> 0 \<le> worker_estimate p q
   \<and> (walk a (p # ps) \<and> (\<forall>c \<in> set ps. \<not> road_like (destination a (fst c) (snd c)))
        \<longrightarrow> heuristic a p (last (p # ps)) \<le> path_cost a (p # ps))
   \<and> (worker_walk nrows ncols (p # ps) \<longrightarrow> worker_h p (last (p # ps)) \<le> worker_path_cost (p # ps))"
  using heuristic_admissible[of a p ps] worker_h_admissible[of nrows ncols p ps]
  by (simp add: heuristic_def worker_h_def worker_estimate_def)

theorem heuristics_nonneg_and_admissible_witness:
  "walk town22 [(0, 0), (1, 1)]
   \<and> \<not> road_like (destination town22 1 1)
   \<and> worker_walk 2 2 [(0, 0), (1, 1)]
   \<and> heuristic town22 (0, 0) (1, 1) \<le> path_cost town22 [(0, 0), (1, 1)]
   \<and> worker_h (0, 0) (1, 1) \<le> worker_path_cost [(0, 0), (1, 1)]"
proof -
  have w: "walk town22 [(0, 0), (1, 1)]" by (simp add: eval_defs town22_def)
  have r: "\<not> road_like (destination town22 1 1)"
    by (simp add: road_like_def destination_def eval_defs town22_def PARKING_def)
  have ww: "worker_walk 2 2 [(0, 0), (1, 1)]" by (simp add: dirs8_def)
  from heuristics_nonneg_and_admissible[of town22 "(0, 0)" "(1, 1)" "[(1, 1)]" 2 2] w r ww
  show ?thesis by simp
qed

text \<open>
  The claim as stated fails for both engines: entering a road tile costs 0.7 where the
  heuristic of the main-thread engine says 1, and the estimate the worker adds to \<^verbatim>\<open>f\<close>
  (the sum of the two distances) says 2 for one diagonal step of cost 1.414.
\<close>

theorem heuristics_overestimate_counterexample:
  "walk road12 [(0, 0), (0, 1)] \<and> heuristic road12 (0, 0) (0, 1) = 1
   \<and> path_cost road12 [(0, 0), (0, 1)] = 0.7
   \<and> worker_walk 2 2 [(0, 0), (1, 1)] \<and> worker_estimate (0, 0) (1, 1) = 2
   \<and> worker_path_cost [(0, 0), (1, 1)] = 1.414"
  by (simp add: eval_defs worker_defs)

subsection \<open>The least cost in the main-thread engine\<close>














subsection \<open>The paths of the worker\<close>














subsection \<open>The two engines on the same input\<close>







text \<open>
  A road tile on the path of the worker can reverse the comparison: its heuristic counts
  1 for a step that costs 0.7, and the main-thread engine stops at a dearer path. On the
  2 x 3 grid, from (1, 2) to (1, 0), its path costs 1.9796 and that of the worker 1.7.
\<close>

lemma lot23_mask: "buildMask (grid lot23) = [1, 1, 1, 1, 1, 1]"
  by (simp add: eval_defs worker_defs lot23_def split del: if_split)

lemma lot23_example:
  "returned_path (game_sync lot23 empty_store (1, 2) (1, 0)) = Some (Some [(1, 2), (0, 1), (1, 0)])
   \<and> game_worker (grid lot23) (1, 2) (1, 0) = Some (Some [(1, 2), (1, 1), (1, 0)])
   \<and> path_cost lot23 [(1, 2), (0, 1), (1, 0)] = 1.9796
   \<and> path_cost lot23 [(1, 2), (1, 1), (1, 0)] = 1.7
   \<and> road_like (destination lot23 1 0)"
proof -
  have 1: "returned_path (game_sync lot23 empty_store (1, 2) (1, 0)) = Some (Some [(1, 2), (0, 1), (1, 0)])"
    by (simp add: game_sync_def lot23_mask)
       (simp add: run_defs lot23_def split del: if_split)
  have 2: "game_worker (grid lot23) (1, 2) (1, 0) = Some (Some [(1, 2), (1, 1), (1, 0)])"
    by (simp add: lot23_mask game_worker_def)
       (simp add: eval_defs worker_defs lot23_def split del: if_split)
  have 3: "path_cost lot23 [(1, 2), (0, 1), (1, 0)] = 1.9796"
    "path_cost lot23 [(1, 2), (1, 1), (1, 0)] = 1.7"
    "road_like (destination lot23 1 0)"
    by (simp_all add: eval_defs worker_defs lot23_def road_like_def destination_def)
  from 1 2 3 show ?thesis by simp
qed


end
